theory Spec2Isabelle
  imports Main "HOL-Library.List_Lexorder"
begin

section \<open>Python strings as lists of code points\<close>

text \<open>
  The parsers work on Python \<open>str\<close> values whose patterns contain CJK characters, so a
  string is modelled as the list of its Unicode code points. \<open>asc\<close> embeds an ASCII
  literal.
\<close>

type_synonym ustr = "nat list"

definition asc :: "string \<Rightarrow> ustr" where
  "asc s = map of_char s"

definition in_ranges :: "(nat \<times> nat) list \<Rightarrow> nat \<Rightarrow> bool" where
  "in_ranges rs c = list_ex (\<lambda>(lo, hi). lo \<le> c \<and> c \<le> hi) rs"

text \<open>\<open>str.isspace\<close> on one character; \<open>\s\<close> of a \<open>str\<close> pattern is the same set.\<close>

definition isspace :: "nat \<Rightarrow> bool" where
  "isspace c = in_ranges [(0x9, 0xD), (0x1C, 0x20), (0x85, 0x85), (0xA0, 0xA0),
     (0x1680, 0x1680), (0x2000, 0x200A), (0x2028, 0x2029), (0x202F, 0x202F),
     (0x205F, 0x205F), (0x3000, 0x3000)] c"

text \<open>
  \<open>\d\<close> of a \<open>str\<close> pattern: the decimal digits of general category Nd
  (Unicode 14, the table of CPython 3.11).
\<close>

definition isdigit :: "nat \<Rightarrow> bool" where
  "isdigit c = (if c < 0x660 then 0x30 \<le> c \<and> c \<le> 0x39 else in_ranges
    [(0x660, 0x669), (0x6F0, 0x6F9), (0x7C0, 0x7C9), (0x966, 0x96F),
     (0x9E6, 0x9EF), (0xA66, 0xA6F), (0xAE6, 0xAEF), (0xB66, 0xB6F), (0xBE6, 0xBEF),
     (0xC66, 0xC6F), (0xCE6, 0xCEF), (0xD66, 0xD6F), (0xDE6, 0xDEF), (0xE50, 0xE59),
     (0xED0, 0xED9), (0xF20, 0xF29), (0x1040, 0x1049), (0x1090, 0x1099),
     (0x17E0, 0x17E9), (0x1810, 0x1819), (0x1946, 0x194F), (0x19D0, 0x19D9),
     (0x1A80, 0x1A89), (0x1A90, 0x1A99), (0x1B50, 0x1B59), (0x1BB0, 0x1BB9),
     (0x1C40, 0x1C49), (0x1C50, 0x1C59), (0xA620, 0xA629), (0xA8D0, 0xA8D9),
     (0xA900, 0xA909), (0xA9D0, 0xA9D9), (0xA9F0, 0xA9F9), (0xAA50, 0xAA59),
     (0xABF0, 0xABF9), (0xFF10, 0xFF19), (0x104A0, 0x104A9), (0x10D30, 0x10D39),
     (0x11066, 0x1106F), (0x110F0, 0x110F9), (0x11136, 0x1113F), (0x111D0, 0x111D9),
     (0x112F0, 0x112F9), (0x11450, 0x11459), (0x114D0, 0x114D9), (0x11650, 0x11659),
     (0x116C0, 0x116C9), (0x11730, 0x11739), (0x118E0, 0x118E9), (0x11950, 0x11959),
     (0x11C50, 0x11C59), (0x11D50, 0x11D59), (0x11DA0, 0x11DA9), (0x16A60, 0x16A69),
     (0x16AC0, 0x16AC9), (0x16B50, 0x16B59), (0x1D7CE, 0x1D7FF), (0x1E140, 0x1E149),
     (0x1E2F0, 0x1E2F9), (0x1E950, 0x1E959), (0x1FBF0, 0x1FBF9)] c)"

text \<open>\<open>str.strip()\<close>: whitespace removed at both ends.\<close>

definition strip :: "ustr \<Rightarrow> ustr" where
  "strip s = rev (dropWhile isspace (rev (dropWhile isspace s)))"

text \<open>\<open>s.startswith(k)\<close> and \<open>k in s\<close>.\<close>

fun startswith :: "ustr \<Rightarrow> ustr \<Rightarrow> bool" where
  "startswith s [] = True"
| "startswith [] (k # ks) = False"
| "startswith (c # cs) (k # ks) = (c = k \<and> startswith cs ks)"

fun contains :: "ustr \<Rightarrow> ustr \<Rightarrow> bool" where
  "contains [] k = (k = [])"
| "contains (c # cs) k = (startswith (c # cs) k \<or> contains cs k)"

text \<open>
  \<open>s.split(sep)\<close> and \<open>re.split(cls, s)\<close> for a separator that is one character of a
  class: the pieces between the separators, empty pieces kept.
\<close>

fun split_at :: "(nat \<Rightarrow> bool) \<Rightarrow> ustr \<Rightarrow> ustr list" where
  "split_at p [] = [[]]"
| "split_at p (c # cs) =
     (if p c then [] # split_at p cs
      else (case split_at p cs of [] \<Rightarrow> [[c]] | w # ws \<Rightarrow> (c # w) # ws))"

text \<open>
  \<open>str.lower()\<close>. Only the capitals A to Z, U+0130 (which becomes \<open>i\<close> followed by
  U+0307) and U+212A (which becomes \<open>k\<close>) have a lower case with an ASCII letter in it.
  Every other character is kept as it is: its lower case, where it has one, contains
  neither an ASCII nor a CJK character, and the result is only searched for keywords
  made of those.
\<close>

definition lower_chr :: "nat \<Rightarrow> ustr" where
  "lower_chr c = (if 0x41 \<le> c \<and> c \<le> 0x5A then [c + 0x20]
     else if c = 0x130 then [0x69, 0x307]
     else if c = 0x212A then [0x6B]
     else [c])"

definition lower :: "ustr \<Rightarrow> ustr" where
  "lower s = concat (map lower_chr s)"

section \<open>Regular expressions of the \<open>re\<close> module\<close>

text \<open>
  A pattern is a term of \<open>rx\<close>. \<open>Star True r\<close> is the greedy \<open>r*\<close>, \<open>Star False r\<close> the
  lazy \<open>r*?\<close>; \<open>Bol\<close> is \<open>^\<close> and \<open>Eol\<close> is \<open>$\<close> (no MULTILINE flag is used anywhere).
\<close>

datatype rx =
    Cls "nat \<Rightarrow> bool"
  | Eps
  | Seq rx rx
  | Alt rx rx
  | Star bool rx
  | Bol
  | Eol

text \<open>
  \<open>ms r n s\<close> matches \<open>r\<close> at the front of \<open>s\<close>, the rest of a subject of length \<open>n\<close>, and
  returns what is left of \<open>s\<close> after each way to match, in the order in which the
  backtracking matcher of \<open>re\<close> tries them. An iteration of a star that consumes nothing
  is dropped, as \<open>re\<close> does.
\<close>

fun ms :: "rx \<Rightarrow> nat \<Rightarrow> ustr \<Rightarrow> ustr list" where
  "ms (Cls p) n s = (case s of [] \<Rightarrow> [] | c # cs \<Rightarrow> if p c then [cs] else [])"
| "ms Eps n s = [s]"
| "ms (Seq a b) n s = concat (map (ms b n) (ms a n s))"
| "ms (Alt a b) n s = ms a n s @ ms b n s"
| "ms (Star g a) n s =
     (let more = concat (map (\<lambda>t. if length t < length s then ms (Star g a) n t else [])
                          (ms a n s))
      in if g then more @ [s] else s # more)"
| "ms Bol n s = (if length s = n then [s] else [])"
| "ms Eol n s = (if s = [] \<or> s = [0xA] then [s] else [])"

text \<open>\<open>re.match(p, s)\<close> and \<open>re.search(p, s)\<close> as truth values.\<close>

definition re_match :: "rx \<Rightarrow> ustr \<Rightarrow> bool" where
  "re_match r s = (ms r (length s) s \<noteq> [])"

fun search_from :: "rx \<Rightarrow> nat \<Rightarrow> ustr \<Rightarrow> bool" where
  "search_from r n [] = (ms r n [] \<noteq> [])"
| "search_from r n (c # cs) = (ms r n (c # cs) \<noteq> [] \<or> search_from r n cs)"

definition re_search :: "rx \<Rightarrow> ustr \<Rightarrow> bool" where
  "re_search r s = search_from r (length s) s"

subsection \<open>Pattern syntax\<close>

definition lit :: "nat \<Rightarrow> rx" where
  "lit c = Cls (\<lambda>x. x = c)"

definition one_of :: "ustr \<Rightarrow> rx" where
  "one_of cs = Cls (\<lambda>x. x \<in> set cs)"

definition seqs :: "rx list \<Rightarrow> rx" where
  "seqs rs = foldr Seq rs Eps"

definition str :: "ustr \<Rightarrow> rx" where
  "str s = seqs (map lit s)"

definition plus :: "rx \<Rightarrow> rx" where
  "plus r = Seq r (Star True r)"

definition opt :: "rx \<Rightarrow> rx" where
  "opt r = Alt r Eps"

text \<open>\<open>r{0,k}\<close> (greedy) and \<open>r{0,k}?\<close> (lazy), then \<open>r{m,m+k}\<close>.\<close>

fun upto_times :: "bool \<Rightarrow> nat \<Rightarrow> rx \<Rightarrow> rx" where
  "upto_times g 0 r = Eps"
| "upto_times g (Suc k) r =
     (if g then Alt (Seq r (upto_times g k r)) Eps else Alt Eps (Seq r (upto_times g k r)))"

fun times :: "nat \<Rightarrow> rx \<Rightarrow> rx \<Rightarrow> rx" where
  "times 0 r rest = rest"
| "times (Suc m) r rest = Seq r (times m r rest)"

definition rep :: "nat \<Rightarrow> nat \<Rightarrow> rx \<Rightarrow> rx" where
  "rep m k r = times m r (upto_times True k r)"

definition dot_any :: rx where
  "dot_any = Cls (\<lambda>x. x \<noteq> 0xA)"

definition ws :: rx where
  "ws = Cls isspace"

definition digit :: rx where
  "digit = Cls isdigit"


text \<open>
  \<open>re.IGNORECASE\<close> on a literal of a \<open>str\<close> pattern: the subject character is lowered
  with the simple case mapping and compared with the lowered literal and its
  equivalents (dotless i for \<open>i\<close>, long s for \<open>s\<close>). Only the characters whose simple
  lower case is an ASCII letter are mapped here; the literals of the patterns below
  are ASCII letters and uncased CJK characters, for which nothing else is compared.
\<close>

definition sre_lower :: "nat \<Rightarrow> nat" where
  "sre_lower c = (if 0x41 \<le> c \<and> c \<le> 0x5A then c + 0x20
     else if c = 0x130 then 0x69
     else if c = 0x212A then 0x6B
     else c)"

definition lit_i :: "nat \<Rightarrow> rx" where
  "lit_i c = Cls (\<lambda>x. sre_lower x = sre_lower c
     \<or> (sre_lower c = 0x69 \<and> x = 0x131) \<or> (sre_lower c = 0x73 \<and> x = 0x17F))"

definition str_i :: "ustr \<Rightarrow> rx" where
  "str_i s = seqs (map lit_i s)"

section \<open>The document node\<close>

text \<open>
  Modelled from the spec: the class \<open>DocNode\<close> (the spec's Block) is imported from
  \<open>lazyllm.tools.rag.doc_node\<close> and is not among the sources. A node has a text,
  which may be absent, and a metadata dictionary, of which the keys that the two
  parsers read or write are fields here: \<open>type\<close>, \<open>style_dict.style_name\<close>
  (absent or unreadable is \<open>None\<close>), \<open>index\<close>, \<open>text_level\<close>, \<open>file_name\<close>,
  \<open>image_path\<close> and the caption and footnote keys written by the merge.
\<close>

record DocNode =
  node_text :: "ustr option"
  node_type :: "ustr option"
  style_name :: "ustr option"
  index :: "int option"
  text_level :: "int option"
  file_name :: "ustr option"
  image_path :: "ustr option"
  image_caption :: "ustr option"
  table_caption :: "ustr option"
  equation_caption :: "ustr option"
  footnote :: "ustr option"
  image_footnote :: "ustr option"
  table_footnote :: "ustr option"
  equation_footnote :: "ustr option"
  global_metadata :: "(ustr \<times> ustr) list"

datatype error = AttributeError

section \<open>layout.py\<close>

definition DOT :: rx where
  "DOT = one_of [0x2E, 0xFF0E]"

definition CN_NUM :: rx where
  "CN_NUM = one_of [0x4E00, 0x4E8C, 0x4E09, 0x56DB, 0x4E94, 0x516D, 0x4E03, 0x516B, 0x4E5D,
     0x5341, 0x767E, 0x5343, 0x4E07, 0x96F6, 0x58F9, 0x8D30, 0x53C1, 0x8086, 0x4F0D, 0x9646,
     0x67D2, 0x634C, 0x7396, 0x62FE, 0x4F70, 0x4EDF]"

definition is_ar_num :: "nat \<Rightarrow> bool" where
  "is_ar_num c = ((0x30 \<le> c \<and> c \<le> 0x39) \<or> (0xFF10 \<le> c \<and> c \<le> 0xFF19))"

definition AR_NUM :: rx where
  "AR_NUM = Cls is_ar_num"

definition is_letter :: "nat \<Rightarrow> bool" where
  "is_letter c = ((0x61 \<le> c \<and> c \<le> 0x7A) \<or> (0x41 \<le> c \<and> c \<le> 0x5A))"

definition LETTER :: rx where
  "LETTER = Cls is_letter"

definition SEP_LOOSE :: rx where
  "SEP_LOOSE = opt ws"

text \<open>Not a digit and none of \<open>)\<close>, fullwidth \<open>)\<close>, \<open>]\<close>, U+3011, \<open>}\<close>.\<close>

definition invalid_follow :: "nat \<Rightarrow> bool" where
  "invalid_follow c = (\<not> isdigit c \<and> c \<notin> set [0x29, 0xFF09, 0x5D, 0x3011, 0x7D])"

definition INVALID_FOLLOW :: rx where
  "INVALID_FOLLOW = Cls invalid_follow"

definition CONTENT_PATTERN :: rx where
  "CONTENT_PATTERN = seqs [Star True ws, INVALID_FOLLOW, Star True dot_any]"

definition normal_template :: "ustr \<Rightarrow> rx" where
  "normal_template marks = seqs [Bol, Star True ws, lit 0x7B2C, Star True ws, plus CN_NUM,
     Star True ws, one_of marks]"

definition NORMAL_TEMPLATES :: "(rx \<times> nat) list" where
  "NORMAL_TEMPLATES = [(normal_template [0x7BC7, 0x5377, 0x7AE0], 1),
     (normal_template [0x8282], 2), (normal_template [0x6761], 3)]"

definition LETTER_NUMBER_PATTERN :: rx where
  "LETTER_NUMBER_PATTERN = seqs [Bol, Star True ws, LETTER, DOT, plus AR_NUM,
     Star True (Seq DOT (plus AR_NUM))]"

definition year_cn :: rx where
  "year_cn = one_of [0x96F6, 0x25CB, 0x30, 0xFF10, 0x3007, 0xFF2F, 0x39F, 0x4E00, 0x4E8C,
     0x4E09, 0x56DB, 0x4E94, 0x516D, 0x4E03, 0x516B, 0x4E5D, 0x5341]"

definition day_cn :: rx where
  "day_cn = one_of [0x4E00, 0x4E8C, 0x4E09, 0x56DB, 0x4E94, 0x516D, 0x4E03, 0x516B, 0x4E5D,
     0x5341]"

definition date_ar :: rx where
  "date_ar = seqs [rep 4 0 digit, lit 0x5E74, rep 1 1 digit, lit 0x6708, rep 1 1 digit,
     lit 0x65E5]"

definition date_cn :: rx where
  "date_cn = seqs [rep 4 0 year_cn, lit 0x5E74, rep 1 1 day_cn, lit 0x6708, rep 1 2 day_cn,
     lit 0x65E5]"

definition date_sep :: rx where
  "date_sep = one_of [0x2E, 0xFF0E, 0x2D]"

definition TIME_PATTERNS :: "rx list" where
  "TIME_PATTERNS =
    [seqs [upto_times False 100 dot_any, Star True ws, lit 0xA, Star True ws, date_ar,
       Star True ws, opt (lit 0xA), Eol],
     seqs [Bol, Star True ws, date_ar, Star True ws, Eol],
     seqs [upto_times False 100 dot_any, Star True ws, lit 0xA, Star True ws, date_cn,
       Star True ws, opt (lit 0xA), Eol],
     seqs [Bol, Star True ws, date_cn, Star True ws, Eol],
     seqs [Bol, Star True ws, rep 4 0 digit, date_sep, rep 1 1 digit, date_sep,
       rep 1 1 digit, Star True ws, Eol]]"

definition TOC_PATTERNS :: "rx list" where
  "TOC_PATTERNS =
    [seqs [Star True dot_any, one_of [0x2E, 0xFF0E, 0xB7], Star True ws, plus digit,
       Star True ws, Eol],
     seqs [Bol, Star True ws,
       Alt AR_NUM (Alt (plus (one_of (asc ''IVX''))) (Alt (str [0x9644, 0x5F55]) CN_NUM)),
       Star False dot_any, plus ws, plus digit, Star True ws, Eol],
     seqs [Bol, Star True ws, lit 0x300A, Star False dot_any, lit 0x300B,
       Star False dot_any, plus ws, plus digit, Star True ws, Eol]]"

definition generate_normal_patterns_with_level :: "(rx \<times> nat) list" where
  "generate_normal_patterns_with_level =
     map (\<lambda>(template, level). (Seq template CONTENT_PATTERN, level)) NORMAL_TEMPLATES"

definition num_block :: rx where
  "num_block = seqs [DOT, Star True ws, rep 1 2 AR_NUM]"

definition number_label :: "nat \<Rightarrow> rx" where
  "number_label level =
     (if level = 1 then seqs [Bol, Star True ws, rep 1 1 AR_NUM, DOT, SEP_LOOSE]
      else seqs [Bol, Star True ws, rep 1 1 AR_NUM, seqs (replicate (level - 1) num_block),
             SEP_LOOSE])"

definition generate_number_patterns_with_level :: "nat \<Rightarrow> (rx \<times> nat) list" where
  "generate_number_patterns_with_level max_level =
     rev (map (\<lambda>level. (Seq (number_label level) CONTENT_PATTERN, level))
            [1 ..< max_level + 1])"

definition NORMAL_PATTERNS_WITH_LEVEL :: "(rx \<times> nat) list" where
  "NORMAL_PATTERNS_WITH_LEVEL = generate_normal_patterns_with_level"

definition NUMBER_PATTERNS_WITH_LEVEL :: "(rx \<times> nat) list" where
  "NUMBER_PATTERNS_WITH_LEVEL = generate_number_patterns_with_level 4"

text \<open>
  The letter patterns keep the label (group 1) apart from what follows it:
  the pattern is the label, then \<open>SEP_LOOSE\<close> and \<open>CONTENT_PATTERN\<close>.
\<close>

definition generate_letter_number_patterns :: "(rx \<times> rx) list" where
  "generate_letter_number_patterns =
     [(LETTER_NUMBER_PATTERN, Seq SEP_LOOSE CONTENT_PATTERN)]"

definition LETTER_PATTERNS :: "(rx \<times> rx) list" where
  "LETTER_PATTERNS = generate_letter_number_patterns"

text \<open>
  \<open>re.match(label + rest, s).group(1)\<close> when the label is group 1 and opens the pattern:
  the first way to match the label, in the matcher's order, after which the rest matches.
\<close>

definition match_group1 :: "rx \<Rightarrow> rx \<Rightarrow> ustr \<Rightarrow> ustr option" where
  "match_group1 label rest s =
     (case filter (\<lambda>t. ms rest (length s) t \<noteq> []) (ms label (length s) s) of
        [] \<Rightarrow> None
      | t # _ \<Rightarrow> Some (take (length s - length t) s))"

text \<open>
  \<open>_reset_node_index\<close> on the values of the nodes, for a list of pairwise distinct node
  objects; \<open>reset_node_index_obj\<close> below has the write on the object itself.
\<close>

definition reset_node_index :: "DocNode list \<Rightarrow> DocNode list" where
  "reset_node_index nodes =
     map (\<lambda>(i, node). node\<lparr>index := Some (int i)\<rparr>) (enumerate 0 nodes)"

text \<open>\<open>_match\<close> on a node; \<open>node.text.strip()\<close> raises when the text is absent.\<close>

definition match_node :: "DocNode \<Rightarrow> rx list \<Rightarrow> error + bool" where
  "match_node node patterns =
     (if patterns = [] then Inr False
      else case node_text node of
        None \<Rightarrow> Inl AttributeError
      | Some t \<Rightarrow> Inr (list_ex (\<lambda>p. re_match p (strip t)) patterns))"

text \<open>\<open>re.sub(DOT + "$", "", s)\<close>: a dot at the end, or before a final line break, goes.\<close>

definition is_dot :: "nat \<Rightarrow> bool" where
  "is_dot c = (c = 0x2E \<or> c = 0xFF0E)"

definition sub_dot_end :: "ustr \<Rightarrow> ustr" where
  "sub_dot_end s =
     (case rev s of
        c # r \<Rightarrow> if is_dot c then rev r
                 else (case r of d # r' \<Rightarrow> if c = 0xA \<and> is_dot d then rev (c # r') else s
                       | [] \<Rightarrow> s)
      | [] \<Rightarrow> s)"

definition first_match_level :: "(rx \<times> nat) list \<Rightarrow> ustr \<Rightarrow> nat option" where
  "first_match_level pats line =
     (case filter (\<lambda>(p, level). re_match p line) pats of
        [] \<Rightarrow> None
      | (p, level) # _ \<Rightarrow> Some level)"

definition letter_level :: "ustr \<Rightarrow> nat option" where
  "letter_level line =
     (case List.map_filter (\<lambda>(label, rest). match_group1 label rest line) LETTER_PATTERNS of
        [] \<Rightarrow> None
      | g # _ \<Rightarrow>
          Some (length (filter (\<lambda>seg. strip seg \<noteq> [])
                  (split_at is_dot (sub_dot_end (strip g))))))"

text \<open>\<open>text.strip().split('\n')[0].strip()\<close>; the list of pieces is never empty.\<close>

definition first_line_of :: "ustr \<Rightarrow> ustr" where
  "first_line_of t =
     strip (case split_at (\<lambda>c. c = 0xA) (strip t) of l # _ \<Rightarrow> l | [] \<Rightarrow> [])"

definition calculate_level_by_regex :: "ustr option \<Rightarrow> nat" where
  "calculate_level_by_regex text =
     (case text of
        None \<Rightarrow> 0
      | Some t \<Rightarrow>
          if t = [] then 0
          else
            let first_line = first_line_of t
            in case first_match_level NUMBER_PATTERNS_WITH_LEVEL first_line of
                 Some level \<Rightarrow> level
               | None \<Rightarrow>
                   (case letter_level first_line of
                      Some level \<Rightarrow> level
                    | None \<Rightarrow>
                        (case first_match_level NORMAL_PATTERNS_WITH_LEVEL first_line of
                           Some level \<Rightarrow> level
                         | None \<Rightarrow> 0)))"

definition level_of :: "DocNode \<Rightarrow> int" where
  "level_of node = (case text_level node of None \<Rightarrow> 0 | Some l \<Rightarrow> l)"

text \<open>One round of the loop of \<open>LayoutNodeParser._parse_nodes\<close>.\<close>

definition layout_node :: "DocNode \<Rightarrow> error + DocNode" where
  "layout_node node =
     (if level_of node > 1 then Inr node
      else case match_node node (TIME_PATTERNS @ TOC_PATTERNS) of
        Inl e \<Rightarrow> Inl e
      | Inr True \<Rightarrow> Inr (node\<lparr>text_level := Some 0\<rparr>)
      | Inr False \<Rightarrow>
          if level_of node = 1 \<and> node_type node = Some (asc ''text'') then
            let regex_level = calculate_level_by_regex (node_text node)
            in if regex_level > 0 then Inr (node\<lparr>text_level := Some (int regex_level)\<rparr>)
               else Inr node
          else Inr node)"

fun layout_parse_nodes :: "DocNode list \<Rightarrow> DocNode list \<Rightarrow> error + DocNode list" where
  "layout_parse_nodes [] result = Inr result"
| "layout_parse_nodes (node # nodes) result =
     (case layout_node node of
        Inl e \<Rightarrow> Inl e
      | Inr node' \<Rightarrow> layout_parse_nodes nodes (result @ [node']))"

text \<open>\<open>itertools.groupby\<close>: the runs of neighbours with the same key.\<close>

fun groupby :: "('a \<Rightarrow> 'k) \<Rightarrow> 'a list \<Rightarrow> 'a list list" where
  "groupby key [] = []"
| "groupby key (x # xs) =
     (case groupby key xs of
        (y # ys) # gs \<Rightarrow> if key x = key y then (x # y # ys) # gs else [x] # (y # ys) # gs
      | _ \<Rightarrow> [[x]])"

definition file_key :: "DocNode \<Rightarrow> ustr" where
  "file_key node = (case file_name node of None \<Rightarrow> [] | Some f \<Rightarrow> f)"

definition index_key :: "DocNode \<Rightarrow> int" where
  "index_key node = (case index node of None \<Rightarrow> 0 | Some i \<Rightarrow> i)"

fun layout_groups :: "DocNode list list \<Rightarrow> DocNode list \<Rightarrow> error + DocNode list" where
  "layout_groups [] result_nodes = Inr result_nodes"
| "layout_groups (grp # groups) result_nodes =
     (if grp = [] then layout_groups groups result_nodes
      else case layout_parse_nodes (sort_key index_key grp) [] of
        Inl e \<Rightarrow> Inl e
      | Inr parsed \<Rightarrow> layout_groups groups (result_nodes @ parsed))"

definition layout_forward :: "DocNode list \<Rightarrow> error + DocNode list" where
  "layout_forward document =
     (case layout_groups (groupby file_key (sort_key file_key document)) [] of
        Inl e \<Rightarrow> Inl e
      | Inr result_nodes \<Rightarrow> Inr (reset_node_index result_nodes))"

section \<open>caption.py\<close>

record type_config =
  patterns :: "rx list"
  content_keywords :: "ustr list"
  style_exclude :: "ustr list"
  style_keywords :: "ustr list"

text \<open>A numbering pattern such as \<open>Figure\s*\d+[\.\-\d]*\<close>, compiled with IGNORECASE.\<close>

definition numbering :: "ustr \<Rightarrow> rx" where
  "numbering label = seqs [str_i label, Star True ws, plus digit,
     Star True (Cls (\<lambda>c. c = 0x2E \<or> c = 0x2D \<or> isdigit c))]"

definition image_config :: type_config where
  "image_config = \<lparr>
     patterns = [numbering [0x56FE], numbering (asc ''Figure''), numbering (asc ''Fig.'')],
     content_keywords = [[0x56FE], asc ''figure'', asc ''fig''],
     style_exclude = [[0x8868], asc ''table'', asc ''tab'', [0x516C, 0x5F0F], asc ''equation'',
       asc ''eq''],
     style_keywords = [[0x56FE], asc ''figure'', asc ''caption'', [0x56FE, 0x9898],
       [0x56FE, 0x6807, 0x9898], asc ''figure caption'', [0x9898, 0x6CE8]] \<rparr>"

definition table_config :: type_config where
  "table_config = \<lparr>
     patterns = [numbering [0x8868], numbering (asc ''Table''), numbering (asc ''Tab.'')],
     content_keywords = [[0x8868], asc ''table'', asc ''tab''],
     style_exclude = [[0x56FE], asc ''figure'', asc ''fig'', [0x516C, 0x5F0F], asc ''equation'',
       asc ''eq''],
     style_keywords = [[0x8868], asc ''table'', asc ''caption'', [0x8868, 0x9898],
       [0x8868, 0x6807, 0x9898], asc ''table caption'', [0x9898, 0x6CE8]] \<rparr>"

definition equation_config :: type_config where
  "equation_config = \<lparr>
     patterns = [numbering [0x516C, 0x5F0F], numbering (asc ''Equation''),
       numbering (asc ''Eq.'')],
     content_keywords = [[0x516C, 0x5F0F], asc ''equation'', asc ''eq''],
     style_exclude = [[0x8868], asc ''table'', asc ''tab'', [0x56FE], asc ''figure'', asc ''fig''],
     style_keywords = [[0x516C, 0x5F0F], asc ''equation'', asc ''caption'',
       [0x516C, 0x5F0F, 0x9898], asc ''equation caption'', [0x9898, 0x6CE8]] \<rparr>"

definition TYPE_CONFIG :: "ustr \<rightharpoonup> type_config" where
  "TYPE_CONFIG = [asc ''image'' \<mapsto> image_config, asc ''table'' \<mapsto> table_config,
     asc ''equation'' \<mapsto> equation_config]"

text \<open>\<open>TYPE_CONFIG.get(target_type, TYPE_CONFIG['table'])\<close>.\<close>

definition config_for :: "ustr \<Rightarrow> type_config" where
  "config_for target_type =
     (case TYPE_CONFIG target_type of Some c \<Rightarrow> c | None \<Rightarrow> table_config)"

text \<open>\<open>node.text.strip() if node.text else ''\<close>.\<close>

definition content_of :: "DocNode \<Rightarrow> ustr" where
  "content_of node =
     (case node_text node of None \<Rightarrow> [] | Some t \<Rightarrow> if t = [] then [] else strip t)"

text \<open>
  \<open>node.metadata.get('style_dict', {}).get('style_name', '').lower()\<close>; a failure of the
  lookup is caught by the source and leads to the content patterns, as the empty
  style name does.
\<close>

definition style_of :: "DocNode \<Rightarrow> ustr" where
  "style_of node = lower (case style_name node of None \<Rightarrow> [] | Some s \<Rightarrow> s)"

definition is_caption :: "DocNode \<Rightarrow> ustr \<Rightarrow> bool" where
  "is_caption node target_type =
     (if node_type node \<noteq> Some (asc ''text'') then False
      else if content_of node = [] then False
      else
        let config = config_for target_type
        in if list_ex (contains (style_of node)) (style_exclude config) then False
           else if list_ex (contains (style_of node)) (style_keywords config) then True
           else list_ex (\<lambda>pattern. re_search pattern (content_of node)) (patterns config))"

definition note_colon :: rx where
  "note_colon = one_of [0xFF1A, 0x3A]"

definition start_patterns :: "rx list" where
  "start_patterns =
     [seqs [str_i [0x6CE8], Star True ws, note_colon, Star True ws],
      seqs [str_i (asc ''Note''), Star True ws, note_colon, Star True ws],
      seqs [str_i [0x8BF4, 0x660E], Star True ws, note_colon, Star True ws]]"

definition marker_patterns :: "rx list" where
  "marker_patterns =
     [one_of [0x2A, 0x2605, 0x2606, 0x203B],
      one_of [0x2460, 0x2461, 0x2462, 0x2463, 0x2464, 0x2465, 0x2466, 0x2467, 0x2468, 0x2469],
      seqs [lit 0x5B, plus digit, lit 0x5D],
      seqs [lit 0x28, plus digit, lit 0x29]]"

definition footnote_style_keywords :: "ustr list" where
  "footnote_style_keywords =
     [asc ''footnote'', [0x811A, 0x6CE8], [0x5C3E, 0x6CE8], asc ''note'', [0x8BF4, 0x660E]]"

definition is_footnote :: "DocNode \<Rightarrow> bool" where
  "is_footnote node =
     (if node_type node \<noteq> Some (asc ''text'') then False
      else if content_of node = [] then False
      else if list_ex (contains (style_of node)) footnote_style_keywords then True
      else if list_ex (\<lambda>pattern. re_search pattern (content_of node)) start_patterns then True
      else list_ex (\<lambda>pattern. re_search pattern (content_of node)) marker_patterns)"

text \<open>\<open>sep.join(parts)\<close>.\<close>

fun join :: "ustr \<Rightarrow> ustr list \<Rightarrow> ustr" where
  "join sep [] = []"
| "join sep [p] = p"
| "join sep (p # q # ps) = p @ sep @ join sep (q # ps)"

definition type_of :: "DocNode \<Rightarrow> ustr" where
  "type_of node = (case node_type node of None \<Rightarrow> [] | Some t \<Rightarrow> t)"

text \<open>The markdown of an image: \<open>![caption](path)\<close>.\<close>

definition image_markdown :: "ustr \<Rightarrow> ustr \<Rightarrow> ustr" where
  "image_markdown caption_text path =
     [0x21, 0x5B] @ caption_text @ [0x5D, 0x28] @ path @ [0x29]"

definition merge_caption_footnote ::
  "bool \<Rightarrow> DocNode \<Rightarrow> DocNode option \<Rightarrow> DocNode option \<Rightarrow> DocNode" where
  "merge_caption_footnote save_image node caption_node footnote_node =
     (let caption_text = (case caption_node of None \<Rightarrow> [] | Some c \<Rightarrow> content_of c);
          footnote_text = (case footnote_node of None \<Rightarrow> [] | Some f \<Rightarrow> content_of f);
          node_type = type_of node;
          m1 = (if caption_text \<noteq> [] then
                  (if node_type = asc ''image'' then node\<lparr>image_caption := Some caption_text\<rparr>
                   else if node_type = asc ''table'' then
                     node\<lparr>table_caption := Some caption_text\<rparr>
                   else if node_type = asc ''equation'' then
                     node\<lparr>equation_caption := Some caption_text\<rparr>
                   else node)
                else node);
          m2 = (if footnote_text \<noteq> [] then
                  (let m = m1\<lparr>footnote := Some footnote_text\<rparr>
                   in if node_type = asc ''image'' then m\<lparr>image_footnote := Some footnote_text\<rparr>
                      else if node_type = asc ''table'' then
                        m\<lparr>table_footnote := Some footnote_text\<rparr>
                      else if node_type = asc ''equation'' then
                        m\<lparr>equation_footnote := Some footnote_text\<rparr>
                      else m)
                else m1);
          head_parts =
            (if node_type = asc ''image'' then
               (if save_image then
                  (let path = (case image_path node of None \<Rightarrow> [] | Some p \<Rightarrow> p)
                   in if caption_text \<noteq> [] then [image_markdown caption_text path]
                      else [image_markdown [] path])
                else if caption_text \<noteq> [] then [caption_text]
                else [])
             else
               (if caption_text \<noteq> [] then [caption_text] else []) @
               (case node_text node of None \<Rightarrow> [] | Some t \<Rightarrow> if t = [] then [] else [t]));
          text_parts = head_parts @ (if footnote_text \<noteq> [] then [footnote_text] else [])
      in m2\<lparr>node_text := Some (join [0xA] text_parts)\<rparr>)"

text \<open>
  The planning pass: \<open>merge_info\<close> and \<open>merged_indices\<close> are the two variables of the
  first loop of \<open>_parse_nodes\<close>.
\<close>

record plan =
  merge_info :: "nat \<rightharpoonup> (nat option \<times> nat option)"
  merged_indices :: "nat set"

definition caption_score :: "type_config \<Rightarrow> ustr \<Rightarrow> nat" where
  "caption_score config content =
     (let by_keyword = foldl (\<lambda>score keyword.
            if startswith content keyword then score + 2 else score) 0 (content_keywords config)
      in foldl (\<lambda>score pattern.
            if re_match pattern content then score + 3 else score) by_keyword (patterns config))"

definition is_text :: "DocNode \<Rightarrow> bool" where
  "is_text node = (node_type node = Some (asc ''text''))"

definition plan_step :: "DocNode list \<Rightarrow> nat \<Rightarrow> plan \<Rightarrow> plan" where
  "plan_step nodes i st =
     (let node = nodes ! i; node_type = type_of node
      in if node_type \<notin> set [asc ''image'', asc ''table'', asc ''equation''] then st
         else
           let prev_caption_idx =
                 (if i > 0 \<and> is_text (nodes ! (i - 1)) \<and> i - 1 \<notin> merged_indices st
                     \<and> is_caption (nodes ! (i - 1)) node_type
                  then Some (i - 1) else None);
               next_caption_idx =
                 (if i + 1 < length nodes \<and> is_text (nodes ! (i + 1))
                     \<and> i + 1 \<notin> merged_indices st \<and> is_caption (nodes ! (i + 1)) node_type
                  then Some (i + 1) else None);
               caption_idx =
                 (case (prev_caption_idx, next_caption_idx) of
                    (Some p, Some q) \<Rightarrow>
                      let config = config_for node_type;
                          prev_score = caption_score config (content_of (nodes ! p));
                          next_score = caption_score config (content_of (nodes ! q))
                      in if prev_score \<ge> next_score then Some p else Some q
                  | (Some p, None) \<Rightarrow> Some p
                  | (None, Some q) \<Rightarrow> Some q
                  | (None, None) \<Rightarrow> None);
               check_start =
                 (case caption_idx of
                    Some c \<Rightarrow> if c > i then c + 1 else i + 1
                  | None \<Rightarrow> i + 1);
               footnote_idx =
                 (if check_start < length nodes \<and> is_text (nodes ! check_start)
                     \<and> check_start \<notin> merged_indices st \<and> is_footnote (nodes ! check_start)
                  then Some check_start else None)
           in \<lparr> merge_info =
                  (if caption_idx \<noteq> None \<or> footnote_idx \<noteq> None
                   then (merge_info st)(i \<mapsto> (caption_idx, footnote_idx))
                   else merge_info st),
                merged_indices =
                  merged_indices st \<union> set_option caption_idx \<union> set_option footnote_idx \<rparr>)"

definition plan_nodes :: "DocNode list \<Rightarrow> plan" where
  "plan_nodes nodes =
     foldl (\<lambda>st i. plan_step nodes i st)
       \<lparr> merge_info = Map.empty, merged_indices = {} \<rparr> [0 ..< length nodes]"

text \<open>What the merge pass appends for the node at \<open>i\<close>, before its index is set.\<close>

definition emit :: "bool \<Rightarrow> DocNode list \<Rightarrow> plan \<Rightarrow> nat \<Rightarrow> DocNode" where
  "emit save_image nodes st i =
     (case merge_info st i of
        Some (caption_idx, footnote_idx) \<Rightarrow>
          merge_caption_footnote save_image (nodes ! i)
            (map_option (\<lambda>j. nodes ! j) caption_idx) (map_option (\<lambda>j. nodes ! j) footnote_idx)
      | None \<Rightarrow> nodes ! i)"

text \<open>
  The second pass, on the values of the nodes: the result is what a list of pairwise
  distinct node objects reads after the pass. \<open>merge_loop_obj\<close> below has the write of
  \<open>index\<close> on the object itself.
\<close>

fun merge_loop :: "bool \<Rightarrow> DocNode list \<Rightarrow> plan \<Rightarrow> nat list \<Rightarrow> DocNode list \<Rightarrow> DocNode list"
  where
  "merge_loop save_image nodes st [] result = result"
| "merge_loop save_image nodes st (i # rest) result =
     (if i \<in> merged_indices st then merge_loop save_image nodes st rest result
      else merge_loop save_image nodes st rest
             (result @ [(emit save_image nodes st i)\<lparr>index := Some (int (length result))\<rparr>]))"

definition parse_nodes :: "bool \<Rightarrow> DocNode list \<Rightarrow> DocNode list" where
  "parse_nodes save_image nodes =
     (if nodes = [] then nodes
      else merge_loop save_image nodes (plan_nodes nodes) [0 ..< length nodes] [])"

section \<open>The specification's wording, for comparison\<close>

text \<open>
  The score as the specification words it: 2 if the content starts with a content
  keyword, plus 3 if it matches a numbering pattern at its start.
\<close>

definition spec_score :: "type_config \<Rightarrow> ustr \<Rightarrow> nat" where
  "spec_score config content =
     (if list_ex (startswith content) (content_keywords config) then 2 else 0) +
     (if list_ex (\<lambda>pattern. re_match pattern content) (patterns config) then 3 else 0)"

text \<open>
  The decimal numbering patterns as the specification words them: the label of a
  depth, followed by the end of the line or by a character that is neither a digit
  nor a closing bracket.
\<close>

definition spec_number_patterns :: "(rx \<times> nat) list" where
  "spec_number_patterns =
     rev (map (\<lambda>level. (Seq (number_label level) (Alt Eol CONTENT_PATTERN), level))
            [1 ..< 4 + 1])"

section \<open>Notions used in the proofs\<close>

text \<open>An anchor is a node of type image, table or equation.\<close>

definition anchor :: "DocNode \<Rightarrow> bool" where
  "anchor node = (type_of node \<in> set [asc ''image'', asc ''table'', asc ''equation''])"

text \<open>The indices that the plan records for the anchor at \<open>i\<close>.\<close>

definition claims :: "plan \<Rightarrow> nat \<Rightarrow> nat set" where
  "claims st i = (case merge_info st i of None \<Rightarrow> {} | Some (c, f) \<Rightarrow> set_option c \<union> set_option f)"

text \<open>The invariant of the planning loop before its round \<open>k\<close>.\<close>

definition plan_inv :: "DocNode list \<Rightarrow> nat \<Rightarrow> plan \<Rightarrow> bool" where
  "plan_inv nodes k st =
     ((\<forall>i c f. merge_info st i = Some (c, f) \<longrightarrow>
         i < k \<and> anchor (nodes ! i) \<and> (c \<noteq> None \<or> f \<noteq> None) \<and>
         (\<forall>j. c = Some j \<longrightarrow> (j + 1 = i \<or> j = i + 1) \<and> is_caption (nodes ! j) (type_of (nodes ! i))) \<and>
         (\<forall>j. f = Some j \<longrightarrow> (j = i + 1 \<or> j = i + 2) \<and> is_footnote (nodes ! j) \<and> c \<noteq> Some j)) \<and>
      (\<forall>j \<in> merged_indices st. j < length nodes \<and> is_text (nodes ! j) \<and> (\<exists>i. j \<in> claims st i)) \<and>
      (\<forall>i. claims st i \<subseteq> merged_indices st) \<and>
      (\<forall>i i'. i \<noteq> i' \<longrightarrow> claims st i \<inter> claims st i' = {}))"

text \<open>The indices that the merge pass does not skip, in order.\<close>

definition kept :: "DocNode list \<Rightarrow> nat list" where
  "kept nodes = filter (\<lambda>i. i \<notin> merged_indices (plan_nodes nodes)) [0 ..< length nodes]"

text \<open>The anchors with a caption, and those with a footnote, in a plan.\<close>

definition caption_anchors :: "plan \<Rightarrow> nat set" where
  "caption_anchors st = {i. \<exists>j f. merge_info st i = Some (Some j, f)}"

definition footnote_anchors :: "plan \<Rightarrow> nat set" where
  "footnote_anchors st = {i. \<exists>c j. merge_info st i = Some (c, Some j)}"

text \<open>A node with a type and a text and nothing else, for the examples.\<close>

definition bare :: "ustr \<Rightarrow> ustr \<Rightarrow> DocNode" where
  "bare t s = \<lparr>node_text = Some s, node_type = Some t, style_name = None, index = None,
     text_level = None, file_name = None, image_path = None, image_caption = None,
     table_caption = None, equation_caption = None, footnote = None, image_footnote = None,
     table_footnote = None, equation_footnote = None, global_metadata = []\<rparr>"

text \<open>Two short documents for the examples.\<close>

definition ex1 :: "DocNode list" where
  "ex1 = [bare (asc ''text'') (asc ''Table 1''), bare (asc ''table'') (asc ''T''),
          bare (asc ''text'') (asc ''Note: x'')]"


text \<open>A table-of-contents line that is also numbered, and a date with level 2.\<close>

definition toc_line :: DocNode where
  "toc_line = (bare (asc ''text'') (asc ''3.1 General 6''))\<lparr>text_level := Some 1\<rparr>"

definition dated :: DocNode where
  "dated = (bare (asc ''text'') [0x32, 0x30, 0x32, 0x34, 0x5E74, 0x33, 0x6708, 0x35, 0x65E5])
             \<lparr>text_level := Some 2\<rparr>"

text \<open>A table with two caption candidates after it, and the outputs of two first runs.\<close>

definition ex3 :: "DocNode list" where
  "ex3 = [bare (asc ''table'') (asc ''T''), bare (asc ''text'') (asc ''Table 1''),
          bare (asc ''text'') (asc ''Table 2'')]"

definition ex3_once :: "DocNode list" where
  "ex3_once =
     [(bare (asc ''table'') (asc ''Table 1'' @ [0xA] @ asc ''T''))
        \<lparr>index := Some 0, table_caption := Some (asc ''Table 1'')\<rparr>,
      (bare (asc ''text'') (asc ''Table 2''))\<lparr>index := Some 1\<rparr>]"

definition ex1_once :: "DocNode list" where
  "ex1_once =
     [(bare (asc ''table'') (asc ''Table 1'' @ [0xA] @ asc ''T'' @ [0xA] @ asc ''Note: x''))
        \<lparr>index := Some 0, table_caption := Some (asc ''Table 1''),
         footnote := Some (asc ''Note: x''), table_footnote := Some (asc ''Note: x'')\<rparr>]"

text \<open>An image between two caption candidates.\<close>

definition ex5 :: "DocNode list" where
  "ex5 = [bare (asc ''text'') (asc ''figure of Fig. 1''), bare (asc ''image'') [],
          bare (asc ''text'') (asc ''Fig. 2'')]"

text \<open>
  The strings that a pattern can consume, without regard to the order of the matcher:
  \<open>ms\<close> only ever splits off a member of \<open>lang\<close>.
\<close>

inductive_set star :: "ustr set \<Rightarrow> ustr set" for A :: "ustr set" where
  star_nil: "[] \<in> star A"
| star_app: "x \<in> A \<Longrightarrow> y \<in> star A \<Longrightarrow> x @ y \<in> star A"

fun lang :: "rx \<Rightarrow> ustr set" where
  "lang (Cls p) = {[c] | c. p c}"
| "lang Eps = {[]}"
| "lang (Seq a b) = {x @ y | x y. x \<in> lang a \<and> y \<in> lang b}"
| "lang (Alt a b) = lang a \<union> lang b"
| "lang (Star g a) = star (lang a)"
| "lang Bol = {[]}"
| "lang Eol = {[]}"

text \<open>Headings for the examples, each with \<open>text_level\<close> 1.\<close>

definition heading :: "ustr \<Rightarrow> DocNode" where
  "heading s = (bare (asc ''text'') s)\<lparr>text_level := Some 1\<rparr>"

text \<open>Notions for the labels of the numbering patterns, and a heading of two lines.\<close>

definition dotted :: "nat \<Rightarrow> ustr \<Rightarrow> bool" where
  "dotted k x = (length (filter is_dot x) = k \<and> (\<forall>c \<in> set x. isspace c \<or> is_ar_num c \<or> is_dot c))"

definition two_lines :: ustr where
  "two_lines = asc ''1.2'' @ [0xA] @ asc ''Scope''"

text \<open>A numeric group of a label, and two headings that start with a letter label.\<close>

definition numeric_group :: "ustr \<Rightarrow> bool" where
  "numeric_group grp = (\<exists>d ds. grp = d # ds \<and> is_dot d \<and> ds \<noteq> [] \<and> list_all is_ar_num ds)"

definition appendix_line :: ustr where
  "appendix_line = asc ''A.1.2 Appendix detail''"

definition label_only :: ustr where
  "label_only = asc ''A.1'' @ [0xA] @ asc ''Introduction''"

section \<open>The nodes as objects\<close>

text \<open>
  Both parsers write \<open>index\<close> on the node object itself: \<open>result[-1].metadata['index'] =
  len(result) - 1\<close> in \<open>CaptionFootnoteParser._parse_nodes\<close>, and
  \<open>node._metadata["index"] = index\<close> in \<open>_reset_node_index\<close>. What a list of nodes reads
  afterwards therefore depends on whether two of its places hold the same object. Here a
  node list is a list of addresses into a store of nodes; \<open>fresh\<close> is the next unused
  address, where \<open>_merge_caption_footnote\<close> puts the \<open>DocNode\<close> it creates.
\<close>

record heap =
  objs :: "nat \<Rightarrow> DocNode"
  fresh :: nat

definition set_index :: "nat \<Rightarrow> int \<Rightarrow> heap \<Rightarrow> heap" where
  "set_index a k h = h\<lparr>objs := (objs h)(a := (objs h a)\<lparr>index := Some k\<rparr>)\<rparr>"

definition alloc :: "DocNode \<Rightarrow> heap \<Rightarrow> heap \<times> nat" where
  "alloc node h = (h\<lparr>objs := (objs h)(fresh h := node), fresh := fresh h + 1\<rparr>, fresh h)"

definition deref :: "heap \<Rightarrow> nat list \<Rightarrow> DocNode list" where
  "deref h addrs = map (objs h) addrs"

text \<open>
  The second pass of \<open>CaptionFootnoteParser._parse_nodes\<close>: a node that is not merged goes
  to the result as the object it is, a merged node is a new object, and the last object
  of the result gets its position as \<open>index\<close>.
\<close>

fun merge_loop_obj ::
  "bool \<Rightarrow> nat list \<Rightarrow> plan \<Rightarrow> nat list \<Rightarrow> heap \<Rightarrow> nat list \<Rightarrow> heap \<times> nat list" where
  "merge_loop_obj save_image addrs st [] h result = (h, result)"
| "merge_loop_obj save_image addrs st (i # rest) h result =
     (if i \<in> merged_indices st then merge_loop_obj save_image addrs st rest h result
      else
        let (h1, a) = (case merge_info st i of
                         Some plan_i \<Rightarrow> alloc (emit save_image (deref h addrs) st i) h
                       | None \<Rightarrow> (h, addrs ! i))
        in merge_loop_obj save_image addrs st rest
             (set_index a (int (length result)) h1) (result @ [a]))"

definition parse_nodes_obj :: "bool \<Rightarrow> heap \<Rightarrow> nat list \<Rightarrow> heap \<times> nat list" where
  "parse_nodes_obj save_image h addrs =
     (if addrs = [] then (h, addrs)
      else merge_loop_obj save_image addrs (plan_nodes (deref h addrs)) [0 ..< length addrs] h [])"

text \<open>
  \<open>_reset_node_index\<close>, and \<open>LayoutNodeParser._parse_nodes\<close> and \<open>forward\<close>, which write
  \<open>text_level\<close> and \<open>index\<close> on the objects of the input and return them.
\<close>

fun reset_node_index_obj :: "nat list \<Rightarrow> nat \<Rightarrow> heap \<Rightarrow> heap" where
  "reset_node_index_obj [] k h = h"
| "reset_node_index_obj (a # rest) k h = reset_node_index_obj rest (k + 1) (set_index a (int k) h)"

fun layout_parse_nodes_obj :: "nat list \<Rightarrow> heap \<Rightarrow> nat list \<Rightarrow> error + heap \<times> nat list" where
  "layout_parse_nodes_obj [] h result = Inr (h, result)"
| "layout_parse_nodes_obj (a # rest) h result =
     (case layout_node (objs h a) of
        Inl e \<Rightarrow> Inl e
      | Inr node' \<Rightarrow>
          layout_parse_nodes_obj rest (h\<lparr>objs := (objs h)(a := node')\<rparr>) (result @ [a]))"

fun layout_groups_obj :: "nat list list \<Rightarrow> heap \<Rightarrow> nat list \<Rightarrow> error + heap \<times> nat list" where
  "layout_groups_obj [] h result_nodes = Inr (h, result_nodes)"
| "layout_groups_obj (grp # groups) h result_nodes =
     (if grp = [] then layout_groups_obj groups h result_nodes
      else case layout_parse_nodes_obj (sort_key (\<lambda>a. index_key (objs h a)) grp) h [] of
        Inl e \<Rightarrow> Inl e
      | Inr (h', parsed) \<Rightarrow> layout_groups_obj groups h' (result_nodes @ parsed))"

definition layout_forward_obj :: "heap \<Rightarrow> nat list \<Rightarrow> error + heap \<times> nat list" where
  "layout_forward_obj h document =
     (case layout_groups_obj
             (groupby (\<lambda>a. file_key (objs h a)) (sort_key (\<lambda>a. file_key (objs h a)) document))
             h [] of
        Inl e \<Rightarrow> Inl e
      | Inr (h', result_nodes) \<Rightarrow> Inr (reset_node_index_obj result_nodes 0 h', result_nodes))"

text \<open>
  The \<open>index\<close> values read through a list of addresses, and three stores for the
  examples: the nodes of \<open>ex1\<close> at the addresses 0, 1 and 2, a table-of-contents line, and
  a plain paragraph.
\<close>

definition indices_of :: "heap \<Rightarrow> nat list \<Rightarrow> int option list" where
  "indices_of h addrs = map (\<lambda>a. index (objs h a)) addrs"

definition ex1_heap :: heap where
  "ex1_heap = \<lparr>objs = (\<lambda>a. if a < 3 then ex1 ! a else bare [] []), fresh = 3\<rparr>"

definition toc_heap :: heap where
  "toc_heap = \<lparr>objs = (\<lambda>a. toc_line), fresh = 1\<rparr>"

definition plain_heap :: heap where
  "plain_heap = \<lparr>objs = (\<lambda>a. bare (asc ''text'') (asc ''x'')), fresh = 1\<rparr>"

section \<open>Evaluating patterns on concrete strings\<close>

lemma upto_times_numeral [simp]:
  "upto_times g (numeral k) r =
     (if g then Alt (Seq r (upto_times g (pred_numeral k) r)) Eps else Alt Eps (Seq r (upto_times g (pred_numeral k) r)))"
  by (simp add: numeral_eq_Suc)
lemma upto_times_1 [simp]:
  "upto_times g 1 r = (if g then Alt (Seq r Eps) Eps else Alt Eps (Seq r Eps))"
  by (simp add: numeral_eq_Suc)
lemma times_numeral [simp]: "times (numeral k) r rest = Seq r (times (pred_numeral k) r rest)"
  by (simp add: numeral_eq_Suc)
lemma times_1 [simp]: "times 1 r rest = Seq r rest"
  by (simp add: numeral_eq_Suc)
lemmas rx_defs = lit_def one_of_def seqs_def str_def plus_def opt_def rep_def dot_any_def ws_def digit_def
  lit_i_def str_i_def DOT_def CN_NUM_def AR_NUM_def LETTER_def SEP_LOOSE_def INVALID_FOLLOW_def CONTENT_PATTERN_def
  normal_template_def NORMAL_TEMPLATES_def LETTER_NUMBER_PATTERN_def num_block_def
  generate_normal_patterns_with_level_def
  NORMAL_PATTERNS_WITH_LEVEL_def generate_letter_number_patterns_def LETTER_PATTERNS_def
lemmas chr_defs = isspace_def isdigit_def in_ranges_def is_ar_num_def is_letter_def invalid_follow_def is_dot_def
lemmas cap_defs = numbering_def image_config_def table_config_def equation_config_def TYPE_CONFIG_def config_for_def
  content_of_def style_of_def is_caption_def note_colon_def start_patterns_def marker_patterns_def footnote_style_keywords_def
  is_footnote_def type_of_def image_markdown_def merge_caption_footnote_def caption_score_def is_text_def plan_step_def
  emit_def parse_nodes_def re_search_def re_match_def strip_def lower_def lower_chr_def sre_lower_def

section \<open>What the matcher returns\<close>

declare ms.simps(5) [simp del]

lemma concat_map_empty: "concat (map (\<lambda>t. []) xs) = []"
  by (induction xs) simp_all

lemma ms_Star_Nil [simp]: "ms (Star g a) n [] = [[]]"
  by (simp add: ms.simps(5) Let_def concat_map_empty)

lemma ms_Star_Cons [simp]:
  "ms (Star g a) n (c # cs) =
     (let more = concat (map (\<lambda>t. if length t < Suc (length cs) then ms (Star g a) n t else [])
                          (ms a n (c # cs)))
      in if g then more @ [c # cs] else (c # cs) # more)"
  by (subst ms.simps(5)) simp

lemma ms_lang: "u \<in> set (ms r n s) \<Longrightarrow> \<exists>p \<in> lang r. s = p @ u"
proof (induction r n s arbitrary: u rule: ms.induct)
  case (1 p n s)
  then show ?case by (auto split: list.splits if_splits)
next
  case (2 n s)
  then show ?case by simp
next
  case (3 a b n s)
  from "3.prems" obtain t where t: "t \<in> set (ms a n s)" and u: "u \<in> set (ms b n t)"
    by auto
  from "3.IH"(1)[OF t] obtain p where p: "p \<in> lang a" "s = p @ t" by blast
  from "3.IH"(2)[OF t u] obtain q where q: "q \<in> lang b" "t = q @ u" by blast
  from p q show ?case by (intro bexI[of _ "p @ q"]) auto
next
  case (4 a b n s)
  then show ?case by auto
next
  case (5 g a n s)
  from "5.prems" consider "u = s"
    | t where "t \<in> set (ms a n s)" "length t < length s" "u \<in> set (ms (Star g a) n t)"
    by (subst (asm) ms.simps(5)) (auto simp: Let_def split: if_splits)
  then show ?case
  proof cases
    case 1
    then show ?thesis by (auto intro: star_nil)
  next
    case 2
    from "5.IH"(1)[OF 2(1)] obtain p where p: "p \<in> lang a" "s = p @ t" by blast
    from "5.IH"(2)[OF 2(1) 2(2) 2(3)] obtain q where q: "q \<in> star (lang a)" "t = q @ u"
      by auto
    from p q show ?thesis by (intro bexI[of _ "p @ q"]) (auto intro: star_app)
  qed
next
  case (6 n s)
  then show ?case by (auto split: if_splits)
next
  case (7 n s)
  then show ?case by (auto split: if_splits)
qed

lemma set_ms_Seq: "set (ms (Seq a b) n s) = (\<Union>t \<in> set (ms a n s). set (ms b n t))"
  by simp

lemma set_ms_Cls: "set (ms (Cls p) n s) = {t. \<exists>c. s = c # t \<and> p c}"
  by (auto split: list.splits)

lemma ms_Star_self: "s \<in> set (ms (Star g a) n s)"
  by (subst ms.simps(5)) (simp add: Let_def)

lemma set_ms_Star_Cls:
  "set (ms (Star g (Cls p)) n s) = {t. \<exists>w. s = w @ t \<and> (\<forall>x \<in> set w. p x)}"
proof (induction s)
  case Nil
  then show ?case by (auto simp: Let_def)
next
  case (Cons c cs)
  have "set (ms (Star g (Cls p)) n (c # cs)) =
          insert (c # cs) (if p c then set (ms (Star g (Cls p)) n cs) else {})"
    by (auto simp: Let_def)
  also have "\<dots> = {t. \<exists>w. c # cs = w @ t \<and> (\<forall>x \<in> set w. p x)}"
    unfolding Cons.IH
    by (auto simp: Cons_eq_append_conv)
  finally show ?case .
qed

lemma ms_Seq_nonempty:
  "ms (Seq a b) n s \<noteq> [] \<longleftrightarrow> (\<exists>t \<in> set (ms a n s). ms b n t \<noteq> [])"
  by auto

lemma content_pattern_unfold:
  "CONTENT_PATTERN = Seq (Star True (Cls isspace)) (Seq (Cls invalid_follow)
     (Seq (Star True dot_any) Eps))"
  by (simp add: CONTENT_PATTERN_def seqs_def ws_def INVALID_FOLLOW_def)

lemma content_pattern_iff:
  "ms CONTENT_PATTERN n u \<noteq> [] \<longleftrightarrow>
     (\<exists>w c rest. u = w @ c # rest \<and> (\<forall>x \<in> set w. isspace x) \<and> invalid_follow c)"
proof -
  have tail: "\<exists>t \<in> set (ms (Star True dot_any) n v). ms Eps n t \<noteq> []" for v
    using ms_Star_self[of v True dot_any n] by auto
  have "ms CONTENT_PATTERN n u \<noteq> [] \<longleftrightarrow>
      (\<exists>v \<in> set (ms (Star True (Cls isspace)) n u). \<exists>v'. v' \<in> set (ms (Cls invalid_follow) n v))"
    unfolding content_pattern_unfold ms_Seq_nonempty using tail by blast
  also have "\<dots> \<longleftrightarrow> (\<exists>v. (\<exists>w. u = w @ v \<and> (\<forall>x \<in> set w. isspace x)) \<and>
      (\<exists>v' c. v = c # v' \<and> invalid_follow c))"
    unfolding set_ms_Star_Cls set_ms_Cls by blast
  also have "\<dots> \<longleftrightarrow> (\<exists>w c rest. u = w @ c # rest \<and> (\<forall>x \<in> set w. isspace x) \<and> invalid_follow c)"
    by blast
  finally show ?thesis .
qed

lemma re_match_content:
  "re_match (Seq label CONTENT_PATTERN) line \<longleftrightarrow>
     (\<exists>u \<in> set (ms label (length line) line). \<exists>w c rest.
        u = w @ c # rest \<and> (\<forall>x \<in> set w. isspace x) \<and> invalid_follow c)"
proof -
  have "re_match (Seq label CONTENT_PATTERN) line \<longleftrightarrow>
          (\<exists>u \<in> set (ms label (length line) line). ms CONTENT_PATTERN (length line) u \<noteq> [])"
    by (auto simp: re_match_def)
  then show ?thesis by (simp only: content_pattern_iff)
qed

lemma space_invalid: "isspace c \<Longrightarrow> invalid_follow c"
  by (auto simp: chr_defs)

lemma content_pattern_first:
  "ms CONTENT_PATTERN n u \<noteq> [] \<longleftrightarrow> (\<exists>c rest. u = c # rest \<and> invalid_follow c)"
proof
  assume "ms CONTENT_PATTERN n u \<noteq> []"
  then obtain w c rest where u: "u = w @ c # rest" and w: "\<forall>x \<in> set w. isspace x"
    and c: "invalid_follow c"
    unfolding content_pattern_iff by blast
  show "\<exists>c rest. u = c # rest \<and> invalid_follow c"
  proof (cases w)
    case Nil
    with u c show ?thesis by auto
  next
    case (Cons x xs)
    with w have "invalid_follow x" by (simp add: space_invalid)
    with u Cons show ?thesis by auto
  qed
next
  assume "\<exists>c rest. u = c # rest \<and> invalid_follow c"
  then obtain c rest where "u = [] @ c # rest" "invalid_follow c" by auto
  then show "ms CONTENT_PATTERN n u \<noteq> []"
    unfolding content_pattern_iff by (intro exI[of _ "[]"] exI[of _ c] exI[of _ rest]) simp
qed

lemma re_match_content_first:
  "re_match (Seq label CONTENT_PATTERN) line \<longleftrightarrow>
     (\<exists>u \<in> set (ms label (length line) line). \<exists>c rest. u = c # rest \<and> invalid_follow c)"
proof -
  have "re_match (Seq label CONTENT_PATTERN) line \<longleftrightarrow>
          (\<exists>u \<in> set (ms label (length line) line). ms CONTENT_PATTERN (length line) u \<noteq> [])"
    by (auto simp: re_match_def)
  then show ?thesis by (simp only: content_pattern_first)
qed

lemma sep_content_first:
  "ms (Seq SEP_LOOSE CONTENT_PATTERN) n t \<noteq> [] \<longleftrightarrow>
     (\<exists>c rest. t = c # rest \<and> invalid_follow c)"
proof
  assume "ms (Seq SEP_LOOSE CONTENT_PATTERN) n t \<noteq> []"
  then obtain v where v: "v \<in> set (ms SEP_LOOSE n t)" and m: "ms CONTENT_PATTERN n v \<noteq> []"
    unfolding ms_Seq_nonempty by blast
  from v have "v = t \<or> (\<exists>c. t = c # v \<and> isspace c)"
    by (auto simp: SEP_LOOSE_def opt_def ws_def split: list.splits if_splits)
  then show "\<exists>c rest. t = c # rest \<and> invalid_follow c"
  proof
    assume "v = t"
    with m show ?thesis by (simp add: content_pattern_first)
  next
    assume "\<exists>c. t = c # v \<and> isspace c"
    then show ?thesis by (auto simp: space_invalid)
  qed
next
  assume "\<exists>c rest. t = c # rest \<and> invalid_follow c"
  then have "ms CONTENT_PATTERN n t \<noteq> []" by (simp add: content_pattern_first)
  moreover have "t \<in> set (ms SEP_LOOSE n t)"
    by (simp add: SEP_LOOSE_def opt_def)
  ultimately show "ms (Seq SEP_LOOSE CONTENT_PATTERN) n t \<noteq> []"
    unfolding ms_Seq_nonempty by blast
qed

section \<open>The planning pass keeps its claims apart\<close>

lemma anchor_not_text: "anchor node \<Longrightarrow> \<not> is_text node"
  by (auto simp: anchor_def is_text_def type_of_def asc_def split: option.splits)

lemma plan_step_skip: "\<not> anchor (nodes ! i) \<Longrightarrow> plan_step nodes i st = st"
  by (simp add: plan_step_def anchor_def Let_def)

lemma plan_step_anchor:
  assumes "anchor (nodes ! i)" and "i < length nodes"
  shows "\<exists>c f. plan_step nodes i st =
           \<lparr> merge_info = (if c \<noteq> None \<or> f \<noteq> None then (merge_info st)(i \<mapsto> (c, f)) else merge_info st),
             merged_indices = merged_indices st \<union> set_option c \<union> set_option f \<rparr> \<and>
         (\<forall>j. c = Some j \<longrightarrow> (j + 1 = i \<or> j = i + 1) \<and> j < length nodes \<and> is_text (nodes ! j)
              \<and> j \<notin> merged_indices st \<and> is_caption (nodes ! j) (type_of (nodes ! i))) \<and>
         (\<forall>j. f = Some j \<longrightarrow> (j = i + 1 \<or> j = i + 2) \<and> c \<noteq> Some j \<and> j < length nodes \<and> is_text (nodes ! j)
              \<and> j \<notin> merged_indices st \<and> is_footnote (nodes ! j))"
proof -
  define p where "p = (if i > 0 \<and> is_text (nodes ! (i - 1)) \<and> i - 1 \<notin> merged_indices st
                     \<and> is_caption (nodes ! (i - 1)) (type_of (nodes ! i))
                  then Some (i - 1) else None)"
  define q where "q = (if i + 1 < length nodes \<and> is_text (nodes ! (i + 1))
                     \<and> i + 1 \<notin> merged_indices st \<and> is_caption (nodes ! (i + 1)) (type_of (nodes ! i))
                  then Some (i + 1) else None)"
  define c where "c = (case (p, q) of
                    (Some p, Some q) \<Rightarrow>
                      let config = config_for (type_of (nodes ! i));
                          prev_score = caption_score config (content_of (nodes ! p));
                          next_score = caption_score config (content_of (nodes ! q))
                      in if prev_score \<ge> next_score then Some p else Some q
                  | (Some p, None) \<Rightarrow> Some p
                  | (None, Some q) \<Rightarrow> Some q
                  | (None, None) \<Rightarrow> None)"
  define cs where "cs = (case c of Some c \<Rightarrow> if c > i then c + 1 else i + 1 | None \<Rightarrow> i + 1)"
  define f where "f = (if cs < length nodes \<and> is_text (nodes ! cs)
                     \<and> cs \<notin> merged_indices st \<and> is_footnote (nodes ! cs)
                  then Some cs else None)"
  have step: "plan_step nodes i st =
           \<lparr> merge_info = (if c \<noteq> None \<or> f \<noteq> None then (merge_info st)(i \<mapsto> (c, f)) else merge_info st),
             merged_indices = merged_indices st \<union> set_option c \<union> set_option f \<rparr>"
    using assms unfolding plan_step_def anchor_def Let_def p_def q_def c_def cs_def f_def by simp
  have pq: "c = p \<or> c = q"
    by (auto simp: c_def Let_def split: option.splits)
  have c: "\<forall>j. c = Some j \<longrightarrow> (j + 1 = i \<or> j = i + 1) \<and> j < length nodes \<and> is_text (nodes ! j)
              \<and> j \<notin> merged_indices st \<and> is_caption (nodes ! j) (type_of (nodes ! i))"
    using pq assms(2) by (auto simp: p_def q_def split: if_splits)
  have f: "\<forall>j. f = Some j \<longrightarrow> (j = i + 1 \<or> j = i + 2) \<and> c \<noteq> Some j \<and> j < length nodes \<and> is_text (nodes ! j)
              \<and> j \<notin> merged_indices st \<and> is_footnote (nodes ! j)"
    using c by (auto simp: f_def cs_def split: if_splits option.splits)
  show ?thesis using step c f by blast
qed

lemma claims_step:
  "claims \<lparr> merge_info = (if c \<noteq> None \<or> f \<noteq> None then (merge_info st)(i \<mapsto> (c, f)) else merge_info st),
             merged_indices = M \<rparr> i' =
     (if i' = i \<and> (c \<noteq> None \<or> f \<noteq> None) then set_option c \<union> set_option f else claims st i')"
  by (auto simp: claims_def)

lemma claims_None: "merge_info st i = None \<Longrightarrow> claims st i = {}"
  by (simp add: claims_def)

lemma plan_inv_step:
  assumes inv: "plan_inv nodes k st" and k: "k < length nodes"
  shows "plan_inv nodes (Suc k) (plan_step nodes k st)"
proof (cases "anchor (nodes ! k)")
  case False
  then have "plan_step nodes k st = st" by (rule plan_step_skip)
  with inv show ?thesis by (auto simp: plan_inv_def less_Suc_eq)
next
  case True
  from plan_step_anchor[OF True k, of st] obtain c f where
    step: "plan_step nodes k st =
           \<lparr> merge_info = (if c \<noteq> None \<or> f \<noteq> None then (merge_info st)(k \<mapsto> (c, f)) else merge_info st),
             merged_indices = merged_indices st \<union> set_option c \<union> set_option f \<rparr>"
    and c: "\<forall>j. c = Some j \<longrightarrow> (j + 1 = k \<or> j = k + 1) \<and> j < length nodes \<and> is_text (nodes ! j)
              \<and> j \<notin> merged_indices st \<and> is_caption (nodes ! j) (type_of (nodes ! k))"
    and f: "\<forall>j. f = Some j \<longrightarrow> (j = k + 1 \<or> j = k + 2) \<and> c \<noteq> Some j \<and> j < length nodes \<and> is_text (nodes ! j)
              \<and> j \<notin> merged_indices st \<and> is_footnote (nodes ! j)"
    by blast
  have old: "merge_info st k = None"
    using inv by (cases "merge_info st k") (auto simp: plan_inv_def)
  have sub: "\<And>i. claims st i \<subseteq> merged_indices st"
    using inv by (simp add: plan_inv_def)
  have new_fresh: "(set_option c \<union> set_option f) \<inter> merged_indices st = {}"
    using c f by (auto simp:)
  let ?st' = "plan_step nodes k st"
  have A: "\<forall>i c' f'. merge_info ?st' i = Some (c', f') \<longrightarrow>
         i < Suc k \<and> anchor (nodes ! i) \<and> (c' \<noteq> None \<or> f' \<noteq> None) \<and>
         (\<forall>j. c' = Some j \<longrightarrow> (j + 1 = i \<or> j = i + 1) \<and> is_caption (nodes ! j) (type_of (nodes ! i))) \<and>
         (\<forall>j. f' = Some j \<longrightarrow> (j = i + 1 \<or> j = i + 2) \<and> is_footnote (nodes ! j) \<and> c' \<noteq> Some j)"
    using inv True c f unfolding step plan_inv_def
    by (auto simp: less_Suc_eq split: if_splits)
  have cl: "\<And>i. claims ?st' i = (if i = k then set_option c \<union> set_option f else claims st i)"
    unfolding step claims_step using claims_None[OF old] by auto
  have B: "\<forall>j \<in> merged_indices ?st'. j < length nodes \<and> is_text (nodes ! j) \<and> (\<exists>i. j \<in> claims ?st' i)"
  proof
    fix j assume j: "j \<in> merged_indices ?st'"
    show "j < length nodes \<and> is_text (nodes ! j) \<and> (\<exists>i. j \<in> claims ?st' i)"
    proof (cases "j \<in> merged_indices st")
      case True
      with inv obtain i where i: "j < length nodes" "is_text (nodes ! j)" "j \<in> claims st i"
        by (auto simp: plan_inv_def)
      from i(3) old have "i \<noteq> k" by (auto simp: claims_def)
      with i show ?thesis by (auto simp: cl)
    next
      case False
      with j have "j \<in> set_option c \<union> set_option f" by (simp add: step)
      with c f show ?thesis by (auto simp: cl intro: exI[of _ k])
    qed
  qed
  have C: "\<forall>i. claims ?st' i \<subseteq> merged_indices ?st'"
    using sub by (auto simp: cl) (auto simp: step)
  have D: "\<forall>i i'. i \<noteq> i' \<longrightarrow> claims ?st' i \<inter> claims ?st' i' = {}"
  proof (intro allI impI)
    fix i i' :: nat assume ne: "i \<noteq> i'"
    have old_disj: "claims st i \<inter> claims st i' = {}"
      using inv ne by (simp add: plan_inv_def)
    show "claims ?st' i \<inter> claims ?st' i' = {}"
      using ne old_disj new_fresh sub[of i] sub[of i'] by (auto simp: cl)
  qed
  show ?thesis unfolding plan_inv_def using A B C D by blast
qed

lemma plan_inv_init: "plan_inv nodes 0 \<lparr> merge_info = Map.empty, merged_indices = {} \<rparr>"
  by (simp add: plan_inv_def claims_def)

lemma plan_inv_foldl:
  "plan_inv nodes 0 st \<Longrightarrow> k \<le> length nodes \<Longrightarrow>
     plan_inv nodes k (foldl (\<lambda>st i. plan_step nodes i st) st [0 ..< k])"
  by (induction k) (auto intro: plan_inv_step)

lemma plan_inv_plan_nodes: "plan_inv nodes (length nodes) (plan_nodes nodes)"
  unfolding plan_nodes_def by (rule plan_inv_foldl[OF plan_inv_init]) simp

section \<open>The merge pass\<close>

lemma merge_loop_eq:
  "merge_loop sv nodes st idxs acc =
     acc @ map (\<lambda>(k, i). (emit sv nodes st i)\<lparr>index := Some (int k)\<rparr>)
             (enumerate (length acc) (filter (\<lambda>i. i \<notin> merged_indices st) idxs))"
  by (induction idxs arbitrary: acc) simp_all

lemma parse_nodes_eq:
  "parse_nodes sv nodes =
     map (\<lambda>(k, i). (emit sv nodes (plan_nodes nodes) i)\<lparr>index := Some (int k)\<rparr>)
       (enumerate 0 (kept nodes))"
  by (simp add: parse_nodes_def merge_loop_eq kept_def)

lemma index_of_enumerated:
  "map index (map (\<lambda>(k, i). (g i)\<lparr>index := Some (int k)\<rparr>) (enumerate n xs)) =
     map (\<lambda>k. Some (int k)) [n ..< n + length xs]"
proof -
  have "map index (map (\<lambda>(k, i). (g i)\<lparr>index := Some (int k)\<rparr>) (enumerate n xs)) =
          map (\<lambda>k. Some (int k)) (map fst (enumerate n xs))"
    by (simp add: case_prod_beta comp_def del: map_fst_enumerate)
  also have "map fst (enumerate n xs) = [n ..< n + length xs]"
    by (rule map_fst_enumerate)
  finally show ?thesis .
qed

lemma merged_bounded:
  "plan_inv nodes k st \<Longrightarrow> merged_indices st \<subseteq> {0 ..< length nodes}"
  by (auto simp: plan_inv_def)

lemma length_filter_notin:
  assumes "M \<subseteq> {0 ..< n}"
  shows "length (filter (\<lambda>i. i \<notin> M) [0 ..< n]) + card M = n"
proof -
  have "length (filter (\<lambda>i. i \<notin> M) [0 ..< n]) = card {i \<in> {0 ..< n}. i \<notin> M}"
    by (metis (no_types, lifting) distinct_upt length_filter_conv_card atLeastLessThan_upt
        distinct_card distinct_filter set_filter Collect_cong)
  also have "{i \<in> {0 ..< n}. i \<notin> M} = {0 ..< n} - M" by auto
  also have "card ({0 ..< n} - M) = n - card M"
    using assms by (simp add: card_Diff_subset finite_subset)
  finally show ?thesis
    using assms card_mono[of "{0 ..< n}" M] by simp
qed

lemma card_merged:
  assumes inv: "plan_inv nodes k st"
  shows "card (merged_indices st) = card (caption_anchors st) + card (footnote_anchors st)"
proof -
  let ?cap = "\<lambda>i. the (fst (the (merge_info st i)))"
  let ?foot = "\<lambda>i. the (snd (the (merge_info st i)))"
  have fin: "finite (dom (merge_info st))"
  proof (rule finite_subset)
    show "dom (merge_info st) \<subseteq> {0 ..< k}" using inv by (auto simp: plan_inv_def)
  qed simp
  have finC: "finite (caption_anchors st)" and finF: "finite (footnote_anchors st)"
    by (rule finite_subset[OF _ fin]; auto simp: caption_anchors_def footnote_anchors_def)+
  have disj: "\<And>i i'. i \<noteq> i' \<Longrightarrow> claims st i \<inter> claims st i' = {}"
    using inv by (simp add: plan_inv_def)
  have capin: "\<And>i. i \<in> caption_anchors st \<Longrightarrow> ?cap i \<in> claims st i"
    by (auto simp: caption_anchors_def claims_def)
  have footin: "\<And>i. i \<in> footnote_anchors st \<Longrightarrow> ?foot i \<in> claims st i"
    by (auto simp: footnote_anchors_def claims_def)
  have injC: "inj_on ?cap (caption_anchors st)"
  proof (rule inj_onI)
    fix i i' assume "i \<in> caption_anchors st" "i' \<in> caption_anchors st" "?cap i = ?cap i'"
    then show "i = i'" using capin[of i] capin[of i'] disj[of i i'] by auto
  qed
  have injF: "inj_on ?foot (footnote_anchors st)"
  proof (rule inj_onI)
    fix i i' assume "i \<in> footnote_anchors st" "i' \<in> footnote_anchors st" "?foot i = ?foot i'"
    then show "i = i'" using footin[of i] footin[of i'] disj[of i i'] by auto
  qed
  have split: "merged_indices st = ?cap ` caption_anchors st \<union> ?foot ` footnote_anchors st"
  proof (rule set_eqI, rule iffI)
    fix j assume "j \<in> merged_indices st"
    with inv obtain i where "j \<in> claims st i" by (auto simp: plan_inv_def)
    then show "j \<in> ?cap ` caption_anchors st \<union> ?foot ` footnote_anchors st"
      by (force simp: claims_def caption_anchors_def footnote_anchors_def image_iff
          split: option.splits)
  next
    fix j assume "j \<in> ?cap ` caption_anchors st \<union> ?foot ` footnote_anchors st"
    then obtain i where "j \<in> claims st i" using capin footin by auto
    with inv show "j \<in> merged_indices st" by (auto simp: plan_inv_def)
  qed
  have cf_disj: "?cap ` caption_anchors st \<inter> ?foot ` footnote_anchors st = {}"
  proof (rule ccontr)
    assume "?cap ` caption_anchors st \<inter> ?foot ` footnote_anchors st \<noteq> {}"
    then obtain i i' where i: "i \<in> caption_anchors st" and i': "i' \<in> footnote_anchors st"
      and eq: "?cap i = ?foot i'" by auto
    have same: "i = i'" using capin[OF i] footin[OF i'] eq disj[of i i'] by auto
    from i obtain j f where a: "merge_info st i = Some (Some j, f)"
      by (auto simp: caption_anchors_def)
    from i' same a obtain j' where b: "f = Some j'"
      by (auto simp: footnote_anchors_def)
    from eq same a b have "j' = j" by simp
    moreover from inv a b have "Some j \<noteq> Some j'"
      unfolding plan_inv_def by blast
    ultimately show False by simp
  qed
  have "card (merged_indices st) = card (?cap ` caption_anchors st) + card (?foot ` footnote_anchors st)"
    unfolding split using finC finF cf_disj by (simp add: card_Un_disjoint)
  then show ?thesis by (simp add: card_image injC injF)
qed

section \<open>The layout pass over a document\<close>

lemma layout_parse_nodes_acc:
  "layout_parse_nodes ns acc = Inr r \<Longrightarrow>
     \<exists>outs. r = acc @ outs \<and> list_all2 (\<lambda>n m. layout_node n = Inr m) ns outs"
proof (induction ns arbitrary: acc)
  case Nil
  then show ?case by simp
next
  case (Cons n ns)
  from Cons.prems obtain m where m: "layout_node n = Inr m"
    and rest: "layout_parse_nodes ns (acc @ [m]) = Inr r"
    by (auto split: sum.splits)
  from Cons.IH[OF rest] obtain outs where "r = (acc @ [m]) @ outs"
    and "list_all2 (\<lambda>n m. layout_node n = Inr m) ns outs" by blast
  with m show ?case by (intro exI[of _ "m # outs"]) simp
qed

lemma layout_groups_acc:
  "layout_groups gs acc = Inr r \<Longrightarrow>
     \<exists>outs. r = acc @ outs \<and>
       list_all2 (\<lambda>n m. layout_node n = Inr m) (concat (map (sort_key index_key) gs)) outs"
proof (induction gs arbitrary: acc)
  case Nil
  then show ?case by simp
next
  case (Cons g gs)
  show ?case
  proof (cases "g = []")
    case True
    with Cons.prems have "layout_groups gs acc = Inr r" by simp
    from Cons.IH[OF this] True show ?thesis by simp
  next
    case False
    with Cons.prems obtain parsed where p: "layout_parse_nodes (sort_key index_key g) [] = Inr parsed"
      and rest: "layout_groups gs (acc @ parsed) = Inr r"
      by (auto split: sum.splits)
    from layout_parse_nodes_acc[OF p]
    have p2: "list_all2 (\<lambda>n m. layout_node n = Inr m) (sort_key index_key g) parsed" by simp
    from Cons.IH[OF rest] obtain outs where r: "r = (acc @ parsed) @ outs"
      and outs: "list_all2 (\<lambda>n m. layout_node n = Inr m) (concat (map (sort_key index_key) gs)) outs"
      by blast
    show ?thesis
      using r list_all2_appendI[OF p2 outs] by (intro exI[of _ "parsed @ outs"]) simp
  qed
qed

lemma groupby_no_empty: "[] \<notin> set (groupby key xs)"
  by (induction xs) (auto split: list.splits)

lemma concat_groupby: "concat (groupby key xs) = xs"
proof (induction xs)
  case Nil
  then show ?case by simp
next
  case (Cons x xs)
  show ?case
  proof (cases "groupby key xs")
    case Nil
    with Cons.IH show ?thesis by simp
  next
    case (Cons g gs)
    with groupby_no_empty[of key xs] obtain y ys where "g = y # ys"
      by (cases g) auto
    with Cons Cons.IH show ?thesis by auto
  qed
qed

lemma set_concat_sorted: "set (concat (map (sort_key f) gs)) = set (concat gs)"
  by (induction gs) simp_all

lemma length_concat_sorted: "length (concat (map (sort_key f) gs)) = length (concat gs)"
  by (induction gs) simp_all

lemma reset_node_index_nth:
  "j < length outs \<Longrightarrow> reset_node_index outs ! j = (outs ! j)\<lparr>index := Some (int j)\<rparr>"
  by (simp add: reset_node_index_def nth_enumerate_eq)

lemma length_reset_node_index: "length (reset_node_index outs) = length outs"
  by (simp add: reset_node_index_def)

lemma layout_forward_nodes:
  assumes "layout_forward document = Inr out"
  shows "\<exists>ns outs. set ns = set document \<and> length ns = length document \<and>
           list_all2 (\<lambda>n m. layout_node n = Inr m) ns outs \<and> out = reset_node_index outs"
proof -
  let ?gs = "groupby file_key (sort_key file_key document)"
  from assms obtain outs where g: "layout_groups ?gs [] = Inr outs" and out: "out = reset_node_index outs"
    by (auto simp: layout_forward_def split: sum.splits)
  let ?ns = "concat (map (sort_key index_key) ?gs)"
  from layout_groups_acc[OF g] have "list_all2 (\<lambda>n m. layout_node n = Inr m) ?ns outs" by simp
  moreover have "set ?ns = set document"
    by (simp only: set_concat_sorted concat_groupby set_sort)
  moreover have "length ?ns = length document"
    by (simp only: length_concat_sorted concat_groupby length_sort)
  ultimately show ?thesis using out by blast
qed

lemma layout_forward_node:
  assumes "layout_forward document = Inr out" and "node \<in> set document"
  shows "\<exists>j m. j < length out \<and> layout_node node = Inr m \<and> out ! j = m\<lparr>index := Some (int j)\<rparr>"
proof -
  from layout_forward_nodes[OF assms(1)] obtain ns outs where
    s: "set ns = set document" and l: "list_all2 (\<lambda>n m. layout_node n = Inr m) ns outs"
    and out: "out = reset_node_index outs" by blast
  from assms(2) s obtain j where j: "j < length ns" "ns ! j = node"
    by (metis in_set_conv_nth)
  from l j have "j < length outs" "layout_node node = Inr (outs ! j)"
    by (auto simp: list_all2_conv_all_nth)
  then show ?thesis
    using out by (auto simp: reset_node_index_nth length_reset_node_index)
qed

lemma layout_forward_index:
  assumes "layout_forward document = Inr out"
  shows "map index out = map (\<lambda>k. Some (int k)) [0 ..< length out]"
proof -
  from assms obtain outs where out: "out = reset_node_index outs"
    by (auto simp: layout_forward_def split: sum.splits)
  show ?thesis unfolding out reset_node_index_def
    using index_of_enumerated[of "\<lambda>n. n" 0 outs] by simp
qed

section \<open>The claims about the caption parser\<close>

lemma plan_ex1:
  "plan_nodes ex1 = \<lparr>merge_info = [1 \<mapsto> (Some 0, Some 2)], merged_indices = {0, 2}\<rparr>"
  apply (simp add: plan_nodes_def ex1_def upt_rec)
  apply (simp add: bare_def asc_def cap_defs rx_defs chr_defs)
  apply (simp add: eval_nat_numeral)
  done


lemma kept_ex1: "kept ex1 = [1]"
  by (simp add: kept_def plan_ex1) (simp add: ex1_def upt_rec)




text \<open>
  C10. What the planning pass records for the anchor at \<open>i\<close>: a caption at
  \<open>i - 1\<close> or \<open>i + 1\<close>, a footnote at \<open>i + 1\<close> or \<open>i + 2\<close>, so after the anchor,
  and never the same index for both; no claimed block is more than two positions
  away from its anchor.
\<close>

theorem claim_locality:
  assumes "merge_info (plan_nodes nodes) i = Some (c, f)"
  shows "i < length nodes \<and> anchor (nodes ! i) \<and>
     (\<forall>j. c = Some j \<longrightarrow> (0 < i \<and> j = i - 1) \<or> j = i + 1) \<and>
     (\<forall>j. f = Some j \<longrightarrow> (j = i + 1 \<or> j = i + 2) \<and> i < j \<and> c \<noteq> Some j) \<and>
     (\<forall>j \<in> set_option c \<union> set_option f. i \<le> j + 1 \<and> j \<le> i + 2)"
proof -
  have inv: "plan_inv nodes (length nodes) (plan_nodes nodes)" by (rule plan_inv_plan_nodes)
  from inv assms have a: "i < length nodes" "anchor (nodes ! i)"
    and c: "\<And>j. c = Some j \<Longrightarrow> j + 1 = i \<or> j = i + 1"
    and f: "\<And>j. f = Some j \<Longrightarrow> (j = i + 1 \<or> j = i + 2) \<and> c \<noteq> Some j"
    unfolding plan_inv_def by blast+
  have "\<forall>j. c = Some j \<longrightarrow> (0 < i \<and> j = i - 1) \<or> j = i + 1"
    using c by fastforce
  moreover have "\<forall>j. f = Some j \<longrightarrow> (j = i + 1 \<or> j = i + 2) \<and> i < j \<and> c \<noteq> Some j"
    using f by fastforce
  moreover have "\<forall>j \<in> set_option c \<union> set_option f. i \<le> j + 1 \<and> j \<le> i + 2"
    using c f by fastforce
  ultimately show ?thesis using a by blast
qed

theorem claim_locality_witness:
  "merge_info (plan_nodes ex1) 1 = Some (Some 0, Some 2) \<and> 1 < length ex1 \<and> anchor (ex1 ! 1)"
  using claim_locality[of ex1 1 "Some 0" "Some 2"]
  by (simp add: plan_ex1)

text \<open>
  C8. The output has as many blocks as the input, less the anchors with a caption, less
  the anchors with a footnote. The indices kept are each kept once, they are the
  indices that are not claimed, and every anchor with a plan is among them.
\<close>

theorem count_law:
  "length (parse_nodes save_image nodes)
     = length nodes - card (caption_anchors (plan_nodes nodes))
         - card (footnote_anchors (plan_nodes nodes)) \<and>
   card (caption_anchors (plan_nodes nodes)) + card (footnote_anchors (plan_nodes nodes))
     \<le> length nodes \<and>
   distinct (kept nodes) \<and>
   set (kept nodes) = {0 ..< length nodes} - merged_indices (plan_nodes nodes) \<and>
   dom (merge_info (plan_nodes nodes)) \<subseteq> set (kept nodes) \<and>
   length (parse_nodes save_image nodes) = length (kept nodes)"
proof -
  let ?st = "plan_nodes nodes"
  have inv: "plan_inv nodes (length nodes) ?st" by (rule plan_inv_plan_nodes)
  have bound: "merged_indices ?st \<subseteq> {0 ..< length nodes}"
    using inv by (rule merged_bounded)
  have len: "length (parse_nodes save_image nodes) = length (kept nodes)"
    by (simp add: parse_nodes_eq)
  have "length (kept nodes) + card (merged_indices ?st) = length nodes"
    unfolding kept_def by (rule length_filter_notin[OF bound])
  then have sum: "length (kept nodes) + (card (caption_anchors ?st) + card (footnote_anchors ?st))
      = length nodes"
    by (simp add: card_merged[OF inv])
  have dom: "dom (merge_info ?st) \<subseteq> set (kept nodes)"
  proof
    fix i assume "i \<in> dom (merge_info ?st)"
    then obtain c f where m: "merge_info ?st i = Some (c, f)" by auto
    with inv have i: "i < length nodes" "anchor (nodes ! i)"
      unfolding plan_inv_def by blast+
    have "i \<notin> merged_indices ?st"
    proof
      assume "i \<in> merged_indices ?st"
      with inv have "is_text (nodes ! i)" by (auto simp: plan_inv_def)
      with anchor_not_text[OF i(2)] show False by simp
    qed
    with i show "i \<in> set (kept nodes)" by (simp add: kept_def)
  qed
  have "distinct (kept nodes)" by (simp add: kept_def)
  moreover have "set (kept nodes) = {0 ..< length nodes} - merged_indices ?st"
    by (auto simp: kept_def)
  ultimately show ?thesis using len sum dom by auto
qed

section \<open>The claims about the layout parser\<close>

lemmas time_toc_defs = TIME_PATTERNS_def TOC_PATTERNS_def date_ar_def date_cn_def year_cn_def
  day_cn_def date_sep_def

lemma upt_levels: "[1 ..< 4 + 1] = [1, 2, 3, 4 :: nat]"
  by (simp add: upt_rec)

lemma number_label_unfold:
  "number_label 4 = seqs [Bol, Star True ws, rep 1 1 AR_NUM,
     seqs [num_block, num_block, num_block], SEP_LOOSE]"
  "number_label 3 = seqs [Bol, Star True ws, rep 1 1 AR_NUM, seqs [num_block, num_block],
     SEP_LOOSE]"
  "number_label 2 = seqs [Bol, Star True ws, rep 1 1 AR_NUM, seqs [num_block], SEP_LOOSE]"
  "number_label 1 = seqs [Bol, Star True ws, rep 1 1 AR_NUM, DOT, SEP_LOOSE]"
  by (simp_all add: number_label_def numeral_eq_Suc)

lemma number_patterns_unfold:
  "NUMBER_PATTERNS_WITH_LEVEL =
     [(Seq (number_label 4) CONTENT_PATTERN, 4), (Seq (number_label 3) CONTENT_PATTERN, 3),
      (Seq (number_label 2) CONTENT_PATTERN, 2), (Seq (number_label 1) CONTENT_PATTERN, 1)]"
  unfolding NUMBER_PATTERNS_WITH_LEVEL_def generate_number_patterns_with_level_def upt_levels
  by simp

lemma strip_toc_line: "strip (asc ''3.1 General 6'') = asc ''3.1 General 6''"
  by (simp add: asc_def strip_def chr_defs)

lemma toc_line_suppressed:
  "list_ex (\<lambda>p. re_match p (asc ''3.1 General 6'')) (TIME_PATTERNS @ TOC_PATTERNS)"
  by (simp add: re_match_def rx_defs chr_defs time_toc_defs asc_def)

lemma toc_line_matches:
  "match_node toc_line (TIME_PATTERNS @ TOC_PATTERNS) = Inr True"
proof -
  have "TIME_PATTERNS @ TOC_PATTERNS \<noteq> []" by (simp add: TIME_PATTERNS_def)
  then show ?thesis
    using toc_line_suppressed
    by (simp add: match_node_def toc_line_def bare_def strip_toc_line)
qed

lemma toc_line_numbered:
  "first_match_level NUMBER_PATTERNS_WITH_LEVEL (asc ''3.1 General 6'') = Some 2"
  unfolding number_patterns_unfold number_label_unfold
  by (simp add: first_match_level_def re_match_def rx_defs chr_defs asc_def)

lemma first_line_toc_line: "first_line_of (asc ''3.1 General 6'') = asc ''3.1 General 6''"
  by (simp add: first_line_of_def asc_def strip_def chr_defs)

lemma toc_line_level: "calculate_level_by_regex (node_text toc_line) = 2"
  by (simp add: toc_line_def bare_def calculate_level_by_regex_def first_line_toc_line
      toc_line_numbered) (simp add: asc_def)

lemma forward_toc_line:
  "layout_forward [toc_line] = Inr [toc_line\<lparr>text_level := Some 0, index := Some 0\<rparr>]"
  by (simp add: layout_forward_def file_key_def index_key_def layout_node_def toc_line_matches
      reset_node_index_def) (simp add: toc_line_def bare_def level_of_def)

lemma strip_dated:
  "strip [0x32, 0x30, 0x32, 0x34, 0x5E74, 0x33, 0x6708, 0x35, 0x65E5]
     = [0x32, 0x30, 0x32, 0x34, 0x5E74, 0x33, 0x6708, 0x35, 0x65E5]"
  by (simp add: strip_def chr_defs)

lemma dated_suppressed:
  "list_ex (\<lambda>p. re_match p [0x32, 0x30, 0x32, 0x34, 0x5E74, 0x33, 0x6708, 0x35, 0x65E5])
     (TIME_PATTERNS @ TOC_PATTERNS)"
  by (simp add: re_match_def rx_defs chr_defs time_toc_defs asc_def)

lemma dated_matches:
  "match_node dated (TIME_PATTERNS @ TOC_PATTERNS) = Inr True"
proof -
  have "TIME_PATTERNS @ TOC_PATTERNS \<noteq> []" by (simp add: TIME_PATTERNS_def)
  then show ?thesis
    using dated_suppressed
    by (simp add: match_node_def dated_def bare_def strip_dated)
qed

lemma forward_dated:
  "layout_forward [dated] = Inr [dated\<lparr>index := Some 0\<rparr>]"
  by (simp add: layout_forward_def file_key_def index_key_def layout_node_def
      reset_node_index_def) (simp add: dated_def bare_def level_of_def)

text \<open>Read as values, the output of the caption parser carries the positions 0, 1, ...\<close>

lemma value_positions:
  "map index (parse_nodes save_image nodes)
     = map (\<lambda>k. Some (int k)) [0 ..< length (parse_nodes save_image nodes)]"
proof -
  have "map index (parse_nodes save_image nodes)
     = map (\<lambda>k. Some (int k)) [0 ..< 0 + length (kept nodes)]"
    unfolding parse_nodes_eq by (rule index_of_enumerated)
  moreover have "length (parse_nodes save_image nodes) = length (kept nodes)"
    by (simp add: parse_nodes_eq)
  ultimately show ?thesis by simp
qed

text \<open>
  C4. A node whose \<open>text_level\<close> is above 1 is returned as it is by the layout pass,
  whatever its text: in the output of \<open>forward\<close> it differs from the input node in
  its \<open>index\<close> only.
\<close>

theorem finalized_level_immunity:
  assumes "level_of node > 1"
  shows "layout_node node = Inr node \<and>
     (\<forall>document out. layout_forward document = Inr out \<and> node \<in> set document
        \<longrightarrow> (\<exists>j < length out. out ! j = node\<lparr>index := Some (int j)\<rparr>
               \<and> text_level (out ! j) = text_level node))"
proof -
  have same: "layout_node node = Inr node"
    using assms by (simp add: layout_node_def)
  have "\<exists>j < length out. out ! j = node\<lparr>index := Some (int j)\<rparr>
               \<and> text_level (out ! j) = text_level node"
    if "layout_forward document = Inr out" "node \<in> set document" for document out
  proof -
    from layout_forward_node[OF that] same obtain j where
      "j < length out" "out ! j = node\<lparr>index := Some (int j)\<rparr>" by auto
    then show ?thesis by (intro exI[of _ j]) simp
  qed
  with same show ?thesis by blast
qed

theorem finalized_level_immunity_witness:
  "level_of dated > 1 \<and> match_node dated (TIME_PATTERNS @ TOC_PATTERNS) = Inr True \<and>
   layout_node dated = Inr dated \<and> layout_forward [dated] = Inr [dated\<lparr>index := Some 0\<rparr>] \<and>
   text_level (dated\<lparr>index := Some 0\<rparr>) = Some 2"
proof -
  have l: "level_of dated > 1" by (simp add: dated_def level_of_def)
  from finalized_level_immunity[OF l] show ?thesis
    using l by (simp add: forward_dated dated_matches) (simp add: dated_def)
qed

text \<open>
  C3 as stated fails for a node whose \<open>text_level\<close> is above 1: a date alone on its
  line, with level 2, matches a timestamp pattern and keeps level 2.
\<close>

theorem suppression_counterexample:
  "match_node dated (TIME_PATTERNS @ TOC_PATTERNS) = Inr True \<and>
   layout_forward [dated] = Inr [dated\<lparr>index := Some 0\<rparr>] \<and>
   text_level (dated\<lparr>index := Some 0\<rparr>) = Some 2 \<and>
   text_level (dated\<lparr>index := Some 0\<rparr>) \<noteq> Some 0"
  by (simp add: forward_dated dated_matches) (simp add: dated_def)

text \<open>
  C3, amended. A node whose \<open>text_level\<close> is at most 1 (or absent) and whose stripped
  text matches a timestamp or table-of-contents pattern leaves the layout pass with
  \<open>text_level\<close> 0; the numbering patterns are not consulted.
\<close>

theorem suppression_precedence:
  assumes "level_of node \<le> 1"
    and "match_node node (TIME_PATTERNS @ TOC_PATTERNS) = Inr True"
  shows "layout_node node = Inr (node\<lparr>text_level := Some 0\<rparr>) \<and>
     (\<forall>document out. layout_forward document = Inr out \<and> node \<in> set document
        \<longrightarrow> (\<exists>j < length out. out ! j = node\<lparr>text_level := Some 0, index := Some (int j)\<rparr>
               \<and> text_level (out ! j) = Some 0))"
proof -
  have same: "layout_node node = Inr (node\<lparr>text_level := Some 0\<rparr>)"
    using assms by (simp add: layout_node_def)
  have "\<exists>j < length out. out ! j = node\<lparr>text_level := Some 0, index := Some (int j)\<rparr>
               \<and> text_level (out ! j) = Some 0"
    if "layout_forward document = Inr out" "node \<in> set document" for document out
  proof -
    from layout_forward_node[OF that] same obtain j where
      "j < length out" "out ! j = node\<lparr>text_level := Some 0, index := Some (int j)\<rparr>" by auto
    then show ?thesis by (intro exI[of _ j]) simp
  qed
  with same show ?thesis by blast
qed

theorem suppression_precedence_witness:
  "level_of toc_line \<le> 1 \<and> match_node toc_line (TIME_PATTERNS @ TOC_PATTERNS) = Inr True \<and>
   calculate_level_by_regex (node_text toc_line) = 2 \<and>
   layout_node toc_line = Inr (toc_line\<lparr>text_level := Some 0\<rparr>) \<and>
   layout_forward [toc_line] = Inr [toc_line\<lparr>text_level := Some 0, index := Some 0\<rparr>]"
proof -
  have l: "level_of toc_line \<le> 1" by (simp add: toc_line_def level_of_def)
  from suppression_precedence[OF l toc_line_matches] show ?thesis
    using l by (simp add: forward_toc_line toc_line_matches toc_line_level)
qed

section \<open>Running the caption parser twice\<close>

lemma plan_ex3:
  "plan_nodes ex3 = \<lparr>merge_info = [0 \<mapsto> (Some 1, None)], merged_indices = {1}\<rparr>"
  apply (simp add: plan_nodes_def ex3_def upt_rec)
  apply (simp add: bare_def asc_def cap_defs rx_defs chr_defs)
  done

lemma kept_ex3: "kept ex3 = [0, 2]"
  by (simp add: kept_def plan_ex3) (simp add: ex3_def upt_rec)

lemma parse_ex3: "parse_nodes True ex3 = ex3_once"
  apply (simp add: parse_nodes_eq kept_ex3 plan_ex3 emit_def)
  apply (simp add: ex3_def ex3_once_def bare_def asc_def merge_caption_footnote_def content_of_def
      type_of_def strip_def chr_defs)
  done

lemma plan_ex3_once:
  "plan_nodes ex3_once = \<lparr>merge_info = [0 \<mapsto> (Some 1, None)], merged_indices = {1}\<rparr>"
  apply (simp add: plan_nodes_def ex3_once_def upt_rec)
  apply (simp add: bare_def asc_def cap_defs rx_defs chr_defs)
  done

lemma kept_ex3_once: "kept ex3_once = [0]"
  by (simp add: kept_def plan_ex3_once) (simp add: ex3_once_def upt_rec)

lemma parse_ex1: "parse_nodes True ex1 = ex1_once"
  apply (simp add: parse_nodes_eq kept_ex1 plan_ex1 emit_def)
  apply (simp add: ex1_def ex1_once_def bare_def asc_def merge_caption_footnote_def content_of_def
      type_of_def strip_def chr_defs)
  apply (simp add: Let_def)
  done

lemma plan_ex1_once:
  "plan_nodes ex1_once = \<lparr>merge_info = Map.empty, merged_indices = {}\<rparr>"
  apply (simp add: plan_nodes_def ex1_once_def upt_rec)
  apply (simp add: bare_def asc_def plan_step_def type_of_def)
  done

text \<open>
  C2 as stated fails: a table followed by two texts that both look like its caption.
  The first run merges the first text; in its output the second text is the table's
  new neighbour, and the second run merges it too.
\<close>

theorem idempotence_counterexample:
  "length (parse_nodes True ex3) = 2 \<and> length (parse_nodes True (parse_nodes True ex3)) = 1 \<and>
   parse_nodes True (parse_nodes True ex3) \<noteq> parse_nodes True ex3"
proof -
  have one: "length (parse_nodes True ex3) = 2"
    by (simp add: parse_ex3 ex3_once_def)
  have two: "length (parse_nodes True (parse_nodes True ex3)) = 1"
    unfolding parse_ex3 by (simp add: parse_nodes_eq kept_ex3_once)
  from one two show ?thesis by auto
qed

lemma unplanned_unmerged:
  assumes "merge_info (plan_nodes nodes) = Map.empty"
  shows "merged_indices (plan_nodes nodes) = {}"
proof -
  have inv: "plan_inv nodes (length nodes) (plan_nodes nodes)" by (rule plan_inv_plan_nodes)
  have "claims (plan_nodes nodes) i = {}" for i
    using assms by (simp add: claims_def)
  with inv show ?thesis unfolding plan_inv_def by blast
qed

lemma parse_nodes_unplanned:
  assumes "merge_info (plan_nodes nodes) = Map.empty"
    and "map index nodes = map (\<lambda>k. Some (int k)) [0 ..< length nodes]"
  shows "parse_nodes save_image nodes = nodes"
proof (rule nth_equalityI)
  have k: "kept nodes = [0 ..< length nodes]"
    by (simp add: kept_def unplanned_unmerged[OF assms(1)])
  show len: "length (parse_nodes save_image nodes) = length nodes"
    by (simp add: parse_nodes_eq k)
  fix i assume "i < length (parse_nodes save_image nodes)"
  with len have i: "i < length nodes" by simp
  from assms(2) i have "index (nodes ! i) = Some (int i)"
    by (metis (no_types, lifting) add_0 length_map nth_map nth_upt)
  then have "(nodes ! i)\<lparr>index := Some (int i)\<rparr> = nodes ! i" by simp
  then show "parse_nodes save_image nodes ! i = nodes ! i"
    using i by (simp add: parse_nodes_eq k emit_def assms(1) nth_enumerate_eq)
qed

text \<open>
  C2, amended. When the planning pass over the output of a run records no merge,
  a second run returns that output unchanged.
\<close>

theorem idempotence_when_settled:
  assumes "merge_info (plan_nodes (parse_nodes save_image nodes)) = Map.empty"
  shows "parse_nodes save_image (parse_nodes save_image nodes) = parse_nodes save_image nodes"
proof -
  have "map index (parse_nodes save_image nodes)
     = map (\<lambda>k. Some (int k)) [0 ..< 0 + length (kept nodes)]"
    unfolding parse_nodes_eq by (rule index_of_enumerated)
  moreover have "length (parse_nodes save_image nodes) = length (kept nodes)"
    by (simp add: parse_nodes_eq)
  ultimately show ?thesis
    using parse_nodes_unplanned[OF assms] by simp
qed

theorem idempotence_when_settled_witness:
  "merge_info (plan_nodes (parse_nodes True ex1)) = Map.empty \<and>
   parse_nodes True (parse_nodes True ex1) = parse_nodes True ex1 \<and>
   length (parse_nodes True ex1) = 1"
proof -
  have h: "merge_info (plan_nodes (parse_nodes True ex1)) = Map.empty"
    by (simp add: parse_ex1 plan_ex1_once)
  from idempotence_when_settled[OF h] h show ?thesis
    by (simp add: parse_ex1 ex1_once_def)
qed

section \<open>Choosing between two caption candidates\<close>

lemma ex5_contents:
  "content_of (bare (asc ''text'') (asc ''figure of Fig. 1'')) = asc ''figure of Fig. 1''"
  "content_of (bare (asc ''text'') (asc ''Fig. 2'')) = asc ''Fig. 2''"
  by (simp_all add: content_of_def bare_def asc_def strip_def chr_defs)

lemma ex5_captions:
  "is_caption (bare (asc ''text'') (asc ''figure of Fig. 1'')) (asc ''image'')"
  "is_caption (bare (asc ''text'') (asc ''Fig. 2'')) (asc ''image'')"
  by (simp_all add: bare_def asc_def cap_defs rx_defs chr_defs)

lemma ex5_scores:
  "caption_score image_config (asc ''figure of Fig. 1'') = 4"
  "caption_score image_config (asc ''Fig. 2'') = 3"
  "spec_score image_config (asc ''figure of Fig. 1'') = 2"
  "spec_score image_config (asc ''Fig. 2'') = 3"
  by (simp_all add: caption_score_def spec_score_def image_config_def numbering_def asc_def
      re_match_def rx_defs chr_defs sre_lower_def)

lemma plan_ex5:
  "plan_nodes ex5 = \<lparr>merge_info = [1 \<mapsto> (Some 0, None)], merged_indices = {0}\<rparr>"
  apply (simp add: plan_nodes_def ex5_def upt_rec)
  apply (simp add: bare_def asc_def cap_defs rx_defs chr_defs)
  done

lemma ex5_types:
  "type_of (bare (asc ''image'') s) = asc ''image''"
  "config_for (asc ''image'') = image_config"
  "is_text (bare (asc ''text'') s)"
  "anchor (bare (asc ''image'') s)"
  by (simp_all add: type_of_def bare_def config_for_def TYPE_CONFIG_def is_text_def anchor_def
      asc_def)

text \<open>
  C5 as stated fails: the score adds 2 for every content keyword that the content
  starts with, and \<open>figure\<close> and \<open>fig\<close> are both keywords of an image. The predecessor
  here scores 2 in the specification's wording and the successor 3, yet the planning
  pass takes the predecessor.
\<close>

theorem caption_score_counterexample:
  "is_caption (ex5 ! 0) (type_of (ex5 ! 1)) \<and> is_caption (ex5 ! 2) (type_of (ex5 ! 1)) \<and>
   spec_score (config_for (type_of (ex5 ! 1))) (content_of (ex5 ! 0)) = 2 \<and>
   spec_score (config_for (type_of (ex5 ! 1))) (content_of (ex5 ! 2)) = 3 \<and>
   merge_info (plan_nodes ex5) 1 = Some (Some 0, None)"
proof -
  have a: "is_caption (ex5 ! 0) (type_of (ex5 ! 1))"
    and b: "is_caption (ex5 ! 2) (type_of (ex5 ! 1))"
    and c: "spec_score (config_for (type_of (ex5 ! 1))) (content_of (ex5 ! 0)) = 2"
    and d: "spec_score (config_for (type_of (ex5 ! 1))) (content_of (ex5 ! 2)) = 3"
    by (simp_all add: ex5_def ex5_types ex5_contents ex5_captions ex5_scores)
  have e: "merge_info (plan_nodes ex5) 1 = Some (Some 0, None)"
    by (simp add: plan_ex5)
  from a b c d e show ?thesis by blast
qed

lemma foldl_count:
  "foldl (\<lambda>score x. if P x then score + k else score) a xs = a + k * length (filter P xs)"
  by (induction xs arbitrary: a) simp_all

lemma caption_score_eq:
  "caption_score config content =
     2 * length (filter (startswith content) (content_keywords config)) +
     3 * length (filter (\<lambda>pattern. re_match pattern content) (patterns config))"
  by (simp add: caption_score_def foldl_count)

text \<open>
  C5, amended. When the predecessor and the successor of an anchor both qualify, the
  caption is the predecessor if its score is at least the successor's, and the
  successor otherwise. The score is 2 for each content keyword of the anchor's type
  that the content starts with, plus 3 for each numbering pattern of the type that
  matches at the start of the content.
\<close>

theorem caption_choice:
  assumes "i < length nodes" and "anchor (nodes ! i)"
    and "0 < i" and "is_text (nodes ! (i - 1))" and "i - 1 \<notin> merged_indices st"
    and "is_caption (nodes ! (i - 1)) (type_of (nodes ! i))"
    and "i + 1 < length nodes" and "is_text (nodes ! (i + 1))" and "i + 1 \<notin> merged_indices st"
    and "is_caption (nodes ! (i + 1)) (type_of (nodes ! i))"
  shows "(\<exists>f. merge_info (plan_step nodes i st) i =
            Some (Some (if caption_score (config_for (type_of (nodes ! i)))
                             (content_of (nodes ! (i - 1)))
                           \<ge> caption_score (config_for (type_of (nodes ! i)))
                               (content_of (nodes ! (i + 1)))
                        then i - 1 else i + 1), f)) \<and>
     (\<forall>content. caption_score (config_for (type_of (nodes ! i))) content =
        2 * length (filter (startswith content)
              (content_keywords (config_for (type_of (nodes ! i))))) +
        3 * length (filter (\<lambda>pattern. re_match pattern content)
              (patterns (config_for (type_of (nodes ! i))))))"
proof -
  have "\<exists>f. merge_info (plan_step nodes i st) i =
            Some (Some (if caption_score (config_for (type_of (nodes ! i)))
                             (content_of (nodes ! (i - 1)))
                           \<ge> caption_score (config_for (type_of (nodes ! i)))
                               (content_of (nodes ! (i + 1)))
                        then i - 1 else i + 1), f)"
    using assms unfolding plan_step_def anchor_def Let_def by simp
  then show ?thesis using caption_score_eq by blast
qed

theorem caption_choice_witness:
  "anchor (ex5 ! 1) \<and> is_caption (ex5 ! (1 - 1)) (type_of (ex5 ! 1)) \<and>
   is_caption (ex5 ! (1 + 1)) (type_of (ex5 ! 1)) \<and>
   caption_score (config_for (type_of (ex5 ! 1))) (content_of (ex5 ! (1 - 1))) = 4 \<and>
   caption_score (config_for (type_of (ex5 ! 1))) (content_of (ex5 ! (1 + 1))) = 3 \<and>
   (\<exists>f. merge_info (plan_step ex5 1 \<lparr>merge_info = Map.empty, merged_indices = {}\<rparr>) 1
          = Some (Some 0, f))"
proof -
  have a: "anchor (ex5 ! 1)"
    and p: "is_caption (ex5 ! (1 - 1)) (type_of (ex5 ! 1))"
    and q: "is_caption (ex5 ! (1 + 1)) (type_of (ex5 ! 1))"
    and tp: "is_text (ex5 ! (1 - 1))" and tq: "is_text (ex5 ! (1 + 1))"
    and sp: "caption_score (config_for (type_of (ex5 ! 1))) (content_of (ex5 ! (1 - 1))) = 4"
    and sq: "caption_score (config_for (type_of (ex5 ! 1))) (content_of (ex5 ! (1 + 1))) = 3"
    and l: "1 < length ex5" "1 + 1 < length ex5"
    by (simp_all add: ex5_def ex5_types ex5_contents ex5_captions ex5_scores)
  have "\<exists>f. merge_info (plan_step ex5 1 \<lparr>merge_info = Map.empty, merged_indices = {}\<rparr>) 1 =
            Some (Some (if caption_score (config_for (type_of (ex5 ! 1)))
                             (content_of (ex5 ! (1 - 1)))
                           \<ge> caption_score (config_for (type_of (ex5 ! 1)))
                               (content_of (ex5 ! (1 + 1)))
                        then 1 - 1 else 1 + 1), f)"
    by (rule conjunct1[OF caption_choice[OF l(1) a _ tp _ p l(2) tq _ q]]) simp_all
  then have "\<exists>f. merge_info (plan_step ex5 1 \<lparr>merge_info = Map.empty, merged_indices = {}\<rparr>) 1
          = Some (Some 0, f)"
    unfolding sp sq by simp
  with a p q sp sq show ?thesis by blast
qed

section \<open>Decimal numbering\<close>

lemma space_not_dot: "isspace c \<Longrightarrow> \<not> is_dot c"
  by (auto simp: chr_defs)

lemma ar_not_dot: "is_ar_num c \<Longrightarrow> \<not> is_dot c"
  by (auto simp: chr_defs)

lemma ar_not_space: "is_ar_num c \<Longrightarrow> \<not> isspace c"
  by (auto simp: chr_defs)

lemma letter_not_space: "is_letter c \<Longrightarrow> \<not> isspace c"
  by (auto simp: chr_defs)

lemma letter_not_dot: "is_letter c \<Longrightarrow> \<not> is_dot c"
  by (auto simp: chr_defs)

lemma star_cls_all: "x \<in> star {[c] | c. p c} \<Longrightarrow> \<forall>c \<in> set x. p c"
  by (induction rule: star.induct) auto

lemma lang_seqs_Cons: "lang (seqs (r # rs)) = {x @ y | x y. x \<in> lang r \<and> y \<in> lang (seqs rs)}"
  by (simp add: seqs_def)

lemma lang_seqs_Nil: "lang (seqs []) = {[]}"
  by (simp add: seqs_def)

lemma lang_ws_star: "x \<in> lang (Star g ws) \<Longrightarrow> \<forall>c \<in> set x. isspace c"
  by (simp add: ws_def star_cls_all)

lemma lang_sep_loose: "x \<in> lang SEP_LOOSE \<Longrightarrow> \<forall>c \<in> set x. isspace c"
  by (auto simp: SEP_LOOSE_def opt_def ws_def)

lemma lang_ar_12: "x \<in> lang (rep 1 1 AR_NUM) \<Longrightarrow> x \<noteq> [] \<and> (\<forall>c \<in> set x. is_ar_num c)"
  by (auto simp: rep_def AR_NUM_def)

lemma lang_ar_13: "x \<in> lang (rep 1 2 AR_NUM) \<Longrightarrow> x \<noteq> [] \<and> (\<forall>c \<in> set x. is_ar_num c)"
  by (auto simp: rep_def AR_NUM_def)

lemma lang_DOT: "x \<in> lang DOT \<Longrightarrow> \<exists>d. x = [d] \<and> is_dot d"
  by (auto simp: DOT_def one_of_def is_dot_def)

lemma dotted_append: "dotted j x \<Longrightarrow> dotted k y \<Longrightarrow> dotted (j + k) (x @ y)"
  by (auto simp: dotted_def)

lemma dotted_space: "\<forall>c \<in> set x. isspace c \<Longrightarrow> dotted 0 x"
  by (auto simp: dotted_def space_not_dot)

lemma dotted_ar: "\<forall>c \<in> set x. is_ar_num c \<Longrightarrow> dotted 0 x"
  by (auto simp: dotted_def ar_not_dot)

lemma dotted_dot: "is_dot d \<Longrightarrow> dotted 1 [d]"
  by (simp add: dotted_def)

lemma dotted_nil: "dotted 0 []"
  by (simp add: dotted_def)

lemma lang_num_block: "x \<in> lang num_block \<Longrightarrow> dotted 1 x"
proof -
  assume "x \<in> lang num_block"
  then obtain a b c where x: "x = a @ b @ c" and a: "a \<in> lang DOT"
    and b: "b \<in> lang (Star True ws)" and c: "c \<in> lang (rep 1 2 AR_NUM)"
    by (auto simp: num_block_def lang_seqs_Cons lang_seqs_Nil)
  from lang_DOT[OF a] obtain d where "a = [d]" "is_dot d" by blast
  then have "dotted 1 a" by (simp add: dotted_def)
  moreover have "dotted 0 b" using lang_ws_star[OF b] by (rule dotted_space)
  moreover have "dotted 0 c" using lang_ar_13[OF c] by (simp add: dotted_ar)
  ultimately have "dotted (1 + (0 + 0)) (a @ b @ c)" by (intro dotted_append)
  with x show ?thesis by simp
qed

lemma lang_num_blocks: "x \<in> lang (seqs (replicate k num_block)) \<Longrightarrow> dotted k x"
proof (induction k arbitrary: x)
  case 0
  then show ?case by (simp add: lang_seqs_Nil dotted_nil)
next
  case (Suc k)
  then obtain a b where x: "x = a @ b" and a: "a \<in> lang num_block"
    and b: "b \<in> lang (seqs (replicate k num_block))"
    by (auto simp: lang_seqs_Cons)
  from lang_num_block[OF a] Suc.IH[OF b] have "dotted (1 + k) (a @ b)" by (rule dotted_append)
  with x show ?case by simp
qed

lemma lang_number_label:
  assumes "1 \<le> d" and "x \<in> lang (number_label d)"
  shows "dotted (max 1 (d - 1)) x"
proof (cases "d = 1")
  case True
  with assms(2) obtain w a b c where x: "x = w @ a @ b @ c" and w: "w \<in> lang (Star True ws)"
    and a: "a \<in> lang (rep 1 1 AR_NUM)" and b: "b \<in> lang DOT" and c: "c \<in> lang SEP_LOOSE"
    by (auto simp: number_label_def lang_seqs_Cons lang_seqs_Nil)
  from lang_DOT[OF b] obtain e where "b = [e]" "is_dot e" by blast
  then have "dotted 1 b" by (simp add: dotted_def)
  moreover have "dotted 0 w" using lang_ws_star[OF w] by (rule dotted_space)
  moreover have "dotted 0 a" using lang_ar_12[OF a] by (simp add: dotted_ar)
  moreover have "dotted 0 c" using lang_sep_loose[OF c] by (rule dotted_space)
  ultimately have "dotted (0 + (0 + (1 + 0))) (w @ a @ b @ c)" by (intro dotted_append)
  with x True show ?thesis by simp
next
  case False
  with assms(2) obtain w a b c where x: "x = w @ a @ b @ c" and w: "w \<in> lang (Star True ws)"
    and a: "a \<in> lang (rep 1 1 AR_NUM)" and b: "b \<in> lang (seqs (replicate (d - 1) num_block))"
    and c: "c \<in> lang SEP_LOOSE"
    by (auto simp: number_label_def lang_seqs_Cons lang_seqs_Nil)
  have "dotted (d - 1) b" using b by (rule lang_num_blocks)
  moreover have "dotted 0 w" using lang_ws_star[OF w] by (rule dotted_space)
  moreover have "dotted 0 a" using lang_ar_12[OF a] by (simp add: dotted_ar)
  moreover have "dotted 0 c" using lang_sep_loose[OF c] by (rule dotted_space)
  ultimately have "dotted (0 + (0 + ((d - 1) + 0))) (w @ a @ b @ c)" by (intro dotted_append)
  moreover have "max 1 (d - 1) = d - 1" using False assms(1) by arith
  ultimately show ?thesis using x by simp
qed

lemma first_match_level_numbers:
  "first_match_level NUMBER_PATTERNS_WITH_LEVEL line = Some d \<longleftrightarrow>
     d \<in> {1, 2, 3, 4} \<and> re_match (Seq (number_label d) CONTENT_PATTERN) line \<and>
     (\<forall>e \<in> {1, 2, 3, 4}. d < e \<longrightarrow> \<not> re_match (Seq (number_label e) CONTENT_PATTERN) line)"
  unfolding number_patterns_unfold first_match_level_def
  by (auto split: list.splits if_splits)

lemma spec_number_patterns_unfold:
  "spec_number_patterns =
     [(Seq (number_label 4) (Alt Eol CONTENT_PATTERN), 4),
      (Seq (number_label 3) (Alt Eol CONTENT_PATTERN), 3),
      (Seq (number_label 2) (Alt Eol CONTENT_PATTERN), 2),
      (Seq (number_label 1) (Alt Eol CONTENT_PATTERN), 1)]"
  unfolding spec_number_patterns_def upt_levels by simp

lemma bare_label_spec:
  "first_match_level spec_number_patterns (asc ''1.2'') = Some 2"
  unfolding spec_number_patterns_unfold number_label_unfold
  by (simp add: first_match_level_def re_match_def rx_defs chr_defs asc_def)

lemma bare_label_code:
  "first_match_level NUMBER_PATTERNS_WITH_LEVEL (asc ''1.2'') = None"
  unfolding number_patterns_unfold number_label_unfold
  by (simp add: first_match_level_def re_match_def rx_defs chr_defs asc_def)

lemma bare_label_letter: "letter_level (asc ''1.2'') = None"
  by (simp add: letter_level_def LETTER_PATTERNS_def generate_letter_number_patterns_def
      List.map_filter_simps match_group1_def LETTER_NUMBER_PATTERN_def rx_defs chr_defs asc_def)

lemma bare_label_normal:
  "first_match_level NORMAL_PATTERNS_WITH_LEVEL (asc ''1.2'') = None"
  by (simp add: first_match_level_def re_match_def rx_defs chr_defs asc_def)

lemma two_lines_first: "first_line_of two_lines = asc ''1.2''"
  by (simp add: two_lines_def first_line_of_def asc_def strip_def chr_defs)

lemma two_lines_level:
  "calculate_level_by_regex (Some two_lines) = 0"
proof -
  have "two_lines \<noteq> []" by (simp add: two_lines_def asc_def)
  then show ?thesis
    by (simp add: calculate_level_by_regex_def two_lines_first bare_label_code bare_label_letter
        bare_label_normal)
qed

lemma two_lines_strip:
  "strip two_lines = two_lines"
  by (simp add: two_lines_def asc_def strip_def chr_defs)

lemma two_lines_kept:
  "\<not> list_ex (\<lambda>p. re_match p two_lines) (TIME_PATTERNS @ TOC_PATTERNS)"
  by (simp add: two_lines_def re_match_def rx_defs chr_defs time_toc_defs asc_def)

lemma two_lines_node:
  "layout_node (heading two_lines)
     = Inr (heading two_lines)"
proof -
  have "TIME_PATTERNS @ TOC_PATTERNS \<noteq> []" by (simp add: TIME_PATTERNS_def)
  then have "match_node (heading two_lines) (TIME_PATTERNS @ TOC_PATTERNS)
      = Inr False"
    using two_lines_kept by (simp add: match_node_def heading_def bare_def two_lines_strip)
  then show ?thesis
    by (simp add: layout_node_def) (simp add: heading_def bare_def level_of_def two_lines_level)
qed

text \<open>
  C6 as stated fails where the label ends the line: the first line \<open>1.2\<close> of a two-line
  heading matches depth 2 in the specification's wording, and no pattern of the source.
  The computed level is 0 and \<open>text_level\<close> stays 1.
\<close>

theorem decimal_numbering_counterexample:
  "first_line_of two_lines = asc ''1.2'' \<and>
   first_match_level spec_number_patterns (asc ''1.2'') = Some 2 \<and>
   first_match_level NUMBER_PATTERNS_WITH_LEVEL (asc ''1.2'') = None \<and>
   calculate_level_by_regex (Some two_lines) = 0 \<and>
   layout_node (heading two_lines)
     = Inr (heading two_lines) \<and>
   text_level (heading two_lines) = Some 1"
  using two_lines_first bare_label_spec bare_label_code two_lines_level two_lines_node
  by (simp add: heading_def)

lemma empty_line_unnumbered:
  "first_match_level NUMBER_PATTERNS_WITH_LEVEL [] = None"
  unfolding number_patterns_unfold number_label_unfold
  by (simp add: first_match_level_def re_match_def rx_defs chr_defs)

lemma first_line_empty: "first_line_of [] = []"
  by (simp add: first_line_of_def strip_def)

text \<open>
  C6, amended. The level of the decimal family is the depth of the first pattern that
  matches, depth 4 tried first and depth 1 last. The pattern of a depth matches exactly
  when some way of matching its label is immediately followed by a character that is
  neither a digit nor a closing bracket; whitespace is such a character, and the end
  of the line does not do. A label of depth \<open>d\<close> consumes whitespace, digits and dots only, with
  \<open>d - 1\<close> dots (one dot for depth 1). For a text node of level 1 that is not suppressed
  the level found overwrites \<open>text_level\<close>.
\<close>

theorem decimal_numbering_level:
  "(first_match_level NUMBER_PATTERNS_WITH_LEVEL line = Some d \<longleftrightarrow>
      d \<in> {1, 2, 3, 4} \<and> re_match (Seq (number_label d) CONTENT_PATTERN) line \<and>
      (\<forall>e \<in> {1, 2, 3, 4}. d < e \<longrightarrow> \<not> re_match (Seq (number_label e) CONTENT_PATTERN) line)) \<and>
   (re_match (Seq (number_label d) CONTENT_PATTERN) line \<longleftrightarrow>
      (\<exists>u \<in> set (ms (number_label d) (length line) line). \<exists>c rest.
         u = c # rest \<and> invalid_follow c)) \<and>
   (\<forall>c. isspace c \<longrightarrow> invalid_follow c) \<and>
   (1 \<le> d \<and> u \<in> set (ms (number_label d) (length line) line) \<longrightarrow>
      (\<exists>label. line = label @ u \<and> length (filter is_dot label) = max 1 (d - 1) \<and>
         (\<forall>x \<in> set label. isspace x \<or> is_ar_num x \<or> is_dot x))) \<and>
   (level_of node = 1 \<and> node_type node = Some (asc ''text'') \<and> node_text node = Some t \<and>
    match_node node (TIME_PATTERNS @ TOC_PATTERNS) = Inr False \<and>
    first_match_level NUMBER_PATTERNS_WITH_LEVEL (first_line_of t) = Some d \<longrightarrow>
      calculate_level_by_regex (Some t) = d \<and>
      layout_node node = Inr (node\<lparr>text_level := Some (int d)\<rparr>))"
proof -
  have A: "first_match_level NUMBER_PATTERNS_WITH_LEVEL line = Some d \<longleftrightarrow>
      d \<in> {1, 2, 3, 4} \<and> re_match (Seq (number_label d) CONTENT_PATTERN) line \<and>
      (\<forall>e \<in> {1, 2, 3, 4}. d < e \<longrightarrow> \<not> re_match (Seq (number_label e) CONTENT_PATTERN) line)"
    by (rule first_match_level_numbers)
  have B: "re_match (Seq (number_label d) CONTENT_PATTERN) line \<longleftrightarrow>
      (\<exists>u \<in> set (ms (number_label d) (length line) line). \<exists>c rest.
         u = c # rest \<and> invalid_follow c)"
    by (rule re_match_content_first)
  have C: "\<exists>label. line = label @ u \<and> length (filter is_dot label) = max 1 (d - 1) \<and>
         (\<forall>x \<in> set label. isspace x \<or> is_ar_num x \<or> is_dot x)"
    if "1 \<le> d" "u \<in> set (ms (number_label d) (length line) line)"
  proof -
    from ms_lang[OF that(2)] obtain label where l: "label \<in> lang (number_label d)"
      and s: "line = label @ u" by blast
    from lang_number_label[OF that(1) l] s show ?thesis
      unfolding dotted_def by blast
  qed
  have D: "calculate_level_by_regex (Some t) = d \<and>
      layout_node node = Inr (node\<lparr>text_level := Some (int d)\<rparr>)"
    if n: "level_of node = 1" "node_type node = Some (asc ''text'')" "node_text node = Some t"
      "match_node node (TIME_PATTERNS @ TOC_PATTERNS) = Inr False"
      and m: "first_match_level NUMBER_PATTERNS_WITH_LEVEL (first_line_of t) = Some d"
  proof -
    have "t \<noteq> []"
      using m empty_line_unnumbered by (auto simp: first_line_empty)
    with m have c: "calculate_level_by_regex (Some t) = d"
      by (simp add: calculate_level_by_regex_def)
    from m have "0 < d"
      using first_match_level_numbers[of "first_line_of t" d] by auto
    with n c show ?thesis by (simp add: layout_node_def)
  qed
  show ?thesis
  proof (intro conjI)
    show "first_match_level NUMBER_PATTERNS_WITH_LEVEL line = Some d \<longleftrightarrow>
      d \<in> {1, 2, 3, 4} \<and> re_match (Seq (number_label d) CONTENT_PATTERN) line \<and>
      (\<forall>e \<in> {1, 2, 3, 4}. d < e \<longrightarrow> \<not> re_match (Seq (number_label e) CONTENT_PATTERN) line)"
      by (rule A)
    show "re_match (Seq (number_label d) CONTENT_PATTERN) line \<longleftrightarrow>
      (\<exists>u \<in> set (ms (number_label d) (length line) line). \<exists>c rest.
         u = c # rest \<and> invalid_follow c)"
      by (rule B)
    show "\<forall>c. isspace c \<longrightarrow> invalid_follow c"
      by (simp add: space_invalid)
    show "1 \<le> d \<and> u \<in> set (ms (number_label d) (length line) line) \<longrightarrow>
      (\<exists>label. line = label @ u \<and> length (filter is_dot label) = max 1 (d - 1) \<and>
         (\<forall>x \<in> set label. isspace x \<or> is_ar_num x \<or> is_dot x))"
      using C by blast
    show "level_of node = 1 \<and> node_type node = Some (asc ''text'') \<and> node_text node = Some t \<and>
        match_node node (TIME_PATTERNS @ TOC_PATTERNS) = Inr False \<and>
        first_match_level NUMBER_PATTERNS_WITH_LEVEL (first_line_of t) = Some d \<longrightarrow>
      calculate_level_by_regex (Some t) = d \<and>
      layout_node node = Inr (node\<lparr>text_level := Some (int d)\<rparr>)"
      using D by blast
  qed
qed

lemma scope_strip: "strip (asc ''1.2 Scope'') = asc ''1.2 Scope''"
  by (simp add: asc_def strip_def chr_defs)

lemma scope_first: "first_line_of (asc ''1.2 Scope'') = asc ''1.2 Scope''"
  by (simp add: first_line_of_def asc_def strip_def chr_defs)

lemma scope_kept:
  "\<not> list_ex (\<lambda>p. re_match p (asc ''1.2 Scope'')) (TIME_PATTERNS @ TOC_PATTERNS)"
  by (simp add: re_match_def rx_defs chr_defs time_toc_defs asc_def)

lemma scope_numbered:
  "first_match_level NUMBER_PATTERNS_WITH_LEVEL (asc ''1.2 Scope'') = Some 2"
  unfolding number_patterns_unfold number_label_unfold
  by (simp add: first_match_level_def re_match_def rx_defs chr_defs asc_def)

lemma follower_examples:
  "first_match_level NUMBER_PATTERNS_WITH_LEVEL (asc ''1.2 3 x'') = Some 2"
  "first_match_level NUMBER_PATTERNS_WITH_LEVEL (asc ''1.2 )x'') = Some 2"
  "first_match_level NUMBER_PATTERNS_WITH_LEVEL (asc ''1.2)x'') = None"
  unfolding number_patterns_unfold number_label_unfold
  by (simp_all add: first_match_level_def re_match_def rx_defs chr_defs asc_def)

theorem decimal_numbering_level_witness:
  "level_of (heading (asc ''1.2 Scope'')) = 1 \<and>
   first_match_level NUMBER_PATTERNS_WITH_LEVEL (asc ''1.2 3 x'') = Some 2 \<and>
   first_match_level NUMBER_PATTERNS_WITH_LEVEL (asc ''1.2)x'') = None \<and>
   match_node (heading (asc ''1.2 Scope'')) (TIME_PATTERNS @ TOC_PATTERNS) = Inr False \<and>
   first_match_level NUMBER_PATTERNS_WITH_LEVEL (first_line_of (asc ''1.2 Scope'')) = Some 2 \<and>
   re_match (Seq (number_label 2) CONTENT_PATTERN) (asc ''1.2 Scope'') \<and>
   calculate_level_by_regex (Some (asc ''1.2 Scope'')) = 2 \<and>
   layout_node (heading (asc ''1.2 Scope''))
     = Inr ((heading (asc ''1.2 Scope''))\<lparr>text_level := Some 2\<rparr>)"
proof -
  have ne: "TIME_PATTERNS @ TOC_PATTERNS \<noteq> []" by (simp add: TIME_PATTERNS_def)
  have l: "level_of (heading (asc ''1.2 Scope'')) = 1"
    and ty: "node_type (heading (asc ''1.2 Scope'')) = Some (asc ''text'')"
    and tx: "node_text (heading (asc ''1.2 Scope'')) = Some (asc ''1.2 Scope'')"
    by (simp_all add: heading_def bare_def level_of_def)
  have m: "match_node (heading (asc ''1.2 Scope'')) (TIME_PATTERNS @ TOC_PATTERNS) = Inr False"
    using ne scope_kept by (simp add: match_node_def tx scope_strip)
  have f: "first_match_level NUMBER_PATTERNS_WITH_LEVEL (first_line_of (asc ''1.2 Scope'')) = Some 2"
    by (simp add: scope_first scope_numbered)
  note T = decimal_numbering_level[of "asc ''1.2 Scope''" 2 "[]" "heading (asc ''1.2 Scope'')"
      "asc ''1.2 Scope''"]
  from T f have r: "re_match (Seq (number_label 2) CONTENT_PATTERN) (asc ''1.2 Scope'')"
    unfolding scope_first by blast
  from T l ty tx m f have "calculate_level_by_regex (Some (asc ''1.2 Scope'')) = 2 \<and>
      layout_node (heading (asc ''1.2 Scope''))
        = Inr ((heading (asc ''1.2 Scope''))\<lparr>text_level := Some (int 2)\<rparr>)"
    by blast
  with l m f r follower_examples show ?thesis by simp
qed

section \<open>Letter and number labels\<close>

lemma lang_plus_ar: "x \<in> lang (plus AR_NUM) \<Longrightarrow> x \<noteq> [] \<and> list_all is_ar_num x"
proof -
  assume "x \<in> lang (plus AR_NUM)"
  then obtain c y where x: "x = c # y" and c: "is_ar_num c"
    and y: "y \<in> star {[c] | c. is_ar_num c}"
    by (auto simp: plus_def AR_NUM_def)
  from star_cls_all[OF y] have "\<forall>c \<in> set y. is_ar_num c" .
  with x c show ?thesis by (simp add: list_all_iff)
qed

lemma lang_dot_group: "x \<in> lang (Seq DOT (plus AR_NUM)) \<Longrightarrow> numeric_group x"
proof -
  assume "x \<in> lang (Seq DOT (plus AR_NUM))"
  then obtain a b where x: "x = a @ b" and a: "a \<in> lang DOT" and b: "b \<in> lang (plus AR_NUM)"
    by auto
  from lang_DOT[OF a] obtain d where "a = [d]" "is_dot d" by blast
  with x lang_plus_ar[OF b] show ?thesis by (auto simp: numeric_group_def)
qed

lemma star_groups:
  "x \<in> star (lang (Seq DOT (plus AR_NUM))) \<Longrightarrow>
     \<exists>groups. x = concat groups \<and> list_all numeric_group groups"
proof (induction rule: star.induct)
  case star_nil
  show ?case by (intro exI[of _ "[]"]) simp
next
  case (star_app a b)
  then obtain groups where "b = concat groups" "list_all numeric_group groups" by blast
  with lang_dot_group[OF star_app.hyps(1)] show ?case
    by (intro exI[of _ "a # groups"]) simp
qed

lemma lang_letter_number:
  assumes "p \<in> lang LETTER_NUMBER_PATTERN"
  shows "\<exists>w l groups. p = w @ l # concat groups \<and> list_all isspace w \<and> is_letter l \<and>
           groups \<noteq> [] \<and> list_all numeric_group groups"
proof -
  from assms obtain w a b c e where p: "p = w @ a @ b @ c @ e"
    and w: "w \<in> lang (Star True ws)" and a: "a \<in> lang LETTER" and b: "b \<in> lang DOT"
    and c: "c \<in> lang (plus AR_NUM)" and e: "e \<in> lang (Star True (Seq DOT (plus AR_NUM)))"
    by (auto simp: LETTER_NUMBER_PATTERN_def lang_seqs_Cons lang_seqs_Nil)
  from a obtain l where l: "a = [l]" "is_letter l" by (auto simp: LETTER_def)
  from lang_DOT[OF b] obtain d where d: "b = [d]" "is_dot d" by blast
  from e obtain groups where g: "e = concat groups" "list_all numeric_group groups"
    using star_groups by auto
  have first: "numeric_group (d # c)"
    using d lang_plus_ar[OF c] by (auto simp: numeric_group_def)
  have "p = w @ l # concat ((d # c) # groups)"
    using p l d g by simp
  moreover have "list_all isspace w"
    using lang_ws_star[OF w] by (simp add: list_all_iff)
  ultimately show ?thesis
    using l(2) first g(2) by (intro exI[of _ w] exI[of _ l] exI[of _ "(d # c) # groups"]) simp
qed

lemma split_at_plain: "\<forall>c \<in> set x. \<not> p c \<Longrightarrow> split_at p x = [x]"
  by (induction x) auto

lemma split_at_sep:
  "\<forall>c \<in> set x. \<not> p c \<Longrightarrow> p d \<Longrightarrow> split_at p (x @ d # rest) = x # split_at p rest"
  by (induction x) auto

lemma numeric_group_tl:
  "numeric_group grp \<Longrightarrow> \<exists>d. grp = d # tl grp \<and> is_dot d \<and> tl grp \<noteq> [] \<and> list_all is_ar_num (tl grp)"
  by (auto simp: numeric_group_def)

lemma split_at_groups:
  "\<forall>c \<in> set x. \<not> is_dot c \<Longrightarrow> list_all numeric_group groups \<Longrightarrow>
     split_at is_dot (x @ concat groups) = x # map tl groups"
proof (induction groups arbitrary: x)
  case Nil
  then show ?case by (simp add: split_at_plain)
next
  case (Cons grp groups)
  from Cons.prems(2) have grp: "numeric_group grp" and rest: "list_all numeric_group groups"
    by simp_all
  from numeric_group_tl[OF grp] obtain d where d: "grp = d # tl grp" "is_dot d"
    "list_all is_ar_num (tl grp)" by blast
  have plain: "\<forall>c \<in> set (tl grp). \<not> is_dot c"
    using d(3) by (auto simp: list_all_iff ar_not_dot)
  have eq: "x @ concat (grp # groups) = x @ d # (tl grp @ concat groups)"
    using d(1) by (metis append_Cons concat.simps(2))
  have "split_at is_dot (x @ d # (tl grp @ concat groups))
      = x # split_at is_dot (tl grp @ concat groups)"
    by (rule split_at_sep[OF Cons.prems(1) d(2)])
  then have "split_at is_dot (x @ concat (grp # groups))
      = x # split_at is_dot (tl grp @ concat groups)"
    by (simp only: eq)
  also have "split_at is_dot (tl grp @ concat groups) = tl grp # map tl groups"
    by (rule Cons.IH[OF plain rest])
  finally show ?case by simp
qed

lemma strip_lead: "list_all isspace w \<Longrightarrow> strip (w @ s) = strip s"
  by (simp add: strip_def list_all_iff dropWhile_append2)

lemma strip_keep:
  assumes "s \<noteq> []" and "\<not> isspace (hd s)" and "\<not> isspace (last s)"
  shows "strip s = s"
proof -
  from assms(1,2) have a: "dropWhile isspace s = s" by (cases s) auto
  from assms(1,3) have "dropWhile isspace (rev s) = rev s"
    by (cases "rev s") (auto simp: last_rev[symmetric] simp del: last_rev)
  with a show ?thesis by (simp add: strip_def)
qed

lemma sub_dot_end_keep:
  assumes "s \<noteq> []" and "\<not> is_dot (last s)" and "last s \<noteq> 0xA"
  shows "sub_dot_end s = s"
proof -
  from assms(1) obtain r where r: "rev s = last s # r"
    by (cases "rev s") (auto simp: hd_rev[symmetric] simp del: hd_rev)
  show ?thesis
    unfolding sub_dot_end_def r using assms(2,3) by (auto split: list.splits)
qed

lemma ar_word:
  assumes "ds \<noteq> []" and "list_all is_ar_num ds"
  shows "strip ds = ds"
proof (rule strip_keep[OF assms(1)])
  from assms show "\<not> isspace (hd ds)" by (cases ds) (auto simp: ar_not_space)
  from assms have "is_ar_num (last ds)" by (auto simp: list_all_iff)
  then show "\<not> isspace (last ds)" by (rule ar_not_space)
qed

lemma last_concat_groups:
  assumes "groups \<noteq> []" and "list_all numeric_group groups"
  shows "is_ar_num (last (concat groups))"
proof -
  from assms have "numeric_group (last groups)" by (auto simp: list_all_iff)
  then obtain d ds where l: "last groups = d # ds" "ds \<noteq> []" "list_all is_ar_num ds"
    by (auto simp: numeric_group_def)
  have "concat groups = concat (butlast groups) @ last groups"
    using assms(1) by (metis append_butlast_last_id concat_append concat.simps append_Nil2)
  then have "last (concat groups) = last ds" using l by simp
  with l show ?thesis by (auto simp: list_all_iff)
qed

lemma label_segments:
  assumes w: "list_all isspace w" and l: "is_letter l" and ne: "groups \<noteq> []"
    and g: "list_all numeric_group groups"
  shows "length (filter (\<lambda>seg. strip seg \<noteq> [])
           (split_at is_dot (sub_dot_end (strip (w @ l # concat groups))))) = 1 + length groups"
proof -
  let ?body = "l # concat groups"
  have lst: "is_ar_num (last (concat groups))" by (rule last_concat_groups[OF ne g])
  have cne: "concat groups \<noteq> []"
    using ne g by (cases groups) (auto simp: numeric_group_def)
  have last_body: "last ?body = last (concat groups)" by (rule last_ConsR[OF cne])
  have nl: "last ?body \<noteq> 0xA"
    using lst ar_not_space[of "0xA"] unfolding last_body by (auto simp: chr_defs)
  have "strip (w @ ?body) = strip ?body" by (rule strip_lead[OF w])
  also have "\<dots> = ?body"
  proof (rule strip_keep)
    show "?body \<noteq> []" by simp
    show "\<not> isspace (hd ?body)" using l by (simp add: letter_not_space)
    show "\<not> isspace (last ?body)" unfolding last_body using lst by (rule ar_not_space)
  qed
  finally have s: "strip (w @ ?body) = ?body" .
  have d: "sub_dot_end ?body = ?body"
  proof (rule sub_dot_end_keep)
    show "?body \<noteq> []" by simp
    show "\<not> is_dot (last ?body)" unfolding last_body using lst by (rule ar_not_dot)
    show "last ?body \<noteq> 0xA" by (rule nl)
  qed
  have "split_at is_dot ([l] @ concat groups) = [l] # map tl groups"
    using l g by (intro split_at_groups) (auto simp: letter_not_dot)
  then have sp: "split_at is_dot ?body = [l] # map tl groups" by simp
  have "strip [l] \<noteq> []"
    using l strip_keep[of "[l]"] by (auto simp: letter_not_space)
  moreover have "filter (\<lambda>seg. strip seg \<noteq> []) (map tl groups) = map tl groups"
  proof (rule filter_True, clarsimp)
    fix grp assume "grp \<in> set groups" "strip (tl grp) = []"
    with g have "numeric_group grp" by (auto simp: list_all_iff)
    from numeric_group_tl[OF this] obtain d where "tl grp \<noteq> []" "list_all is_ar_num (tl grp)"
      by blast
    from ar_word[OF this] \<open>tl grp \<noteq> []\<close> \<open>strip (tl grp) = []\<close> show False by simp
  qed
  ultimately show ?thesis unfolding s d sp by simp
qed

lemma letter_level_unfold:
  "letter_level line =
     (case match_group1 LETTER_NUMBER_PATTERN (Seq SEP_LOOSE CONTENT_PATTERN) line of
        None \<Rightarrow> None
      | Some g \<Rightarrow> Some (length (filter (\<lambda>seg. strip seg \<noteq> [])
                  (split_at is_dot (sub_dot_end (strip g))))))"
  by (simp add: letter_level_def LETTER_PATTERNS_def generate_letter_number_patterns_def
      List.map_filter_simps split: option.splits)

lemma match_group1_Some:
  assumes "match_group1 label rest s = Some g"
  shows "\<exists>t. t \<in> set (ms label (length s) s) \<and> ms rest (length s) t \<noteq> [] \<and> s = g @ t"
proof -
  from assms obtain t ts where f: "filter (\<lambda>t. ms rest (length s) t \<noteq> []) (ms label (length s) s) = t # ts"
    and g: "g = take (length s - length t) s"
    by (auto simp: match_group1_def split: list.splits)
  from f have "t \<in> set (filter (\<lambda>t. ms rest (length s) t \<noteq> []) (ms label (length s) s))"
    by simp
  then have t: "t \<in> set (ms label (length s) s)" "ms rest (length s) t \<noteq> []" by simp_all
  from ms_lang[OF t(1)] obtain p where "s = p @ t" by blast
  with g have "s = g @ t" by simp
  with t show ?thesis by blast
qed

lemma letter_label_shape:
  assumes "match_group1 LETTER_NUMBER_PATTERN (Seq SEP_LOOSE CONTENT_PATTERN) line = Some g"
  shows "\<exists>w l groups c rest. g = w @ l # concat groups \<and> list_all isspace w \<and> is_letter l \<and>
           groups \<noteq> [] \<and> list_all numeric_group groups \<and>
           line = g @ c # rest \<and> invalid_follow c"
proof -
  from match_group1_Some[OF assms] obtain t where t: "t \<in> set (ms LETTER_NUMBER_PATTERN (length line) line)"
    and r: "ms (Seq SEP_LOOSE CONTENT_PATTERN) (length line) t \<noteq> []" and s: "line = g @ t"
    by blast
  from ms_lang[OF t] obtain p where p: "p \<in> lang LETTER_NUMBER_PATTERN" "line = p @ t" by blast
  with s have "p = g" by simp
  with lang_letter_number[OF p(1)] obtain w l groups where
    "g = w @ l # concat groups" "list_all isspace w" "is_letter l" "groups \<noteq> []"
    "list_all numeric_group groups" by blast
  moreover from r obtain c rest where "t = c # rest" "invalid_follow c"
    unfolding sep_content_first by blast
  ultimately show ?thesis using s by blast
qed

lemma empty_line_unlettered: "letter_level [] = None"
  by (simp add: letter_level_unfold match_group1_def LETTER_NUMBER_PATTERN_def rx_defs)

text \<open>
  C7, amended. The letter pattern matches a line exactly when some way of matching its
  label is immediately followed by a character that is neither a digit nor a closing
  bracket; whitespace is such a character, and the end of the line does not do. The
  label it then takes is optional whitespace, a letter and one or more groups of a dot
  and digits. The level is the number of non-empty segments between the dots of that
  label, the letter counted: one more than the number of numeric groups. When no decimal pattern matches the first line,
  this is the computed level, and for a text node of level 1 that is not suppressed it
  overwrites \<open>text_level\<close>.
\<close>

lemma letter_level_matches:
  "letter_level line \<noteq> None \<longleftrightarrow>
     (\<exists>u \<in> set (ms LETTER_NUMBER_PATTERN (length line) line). \<exists>c rest.
        u = c # rest \<and> invalid_follow c)"
proof -
  have "letter_level line \<noteq> None \<longleftrightarrow>
      filter (\<lambda>t. ms (Seq SEP_LOOSE CONTENT_PATTERN) (length line) t \<noteq> [])
        (ms LETTER_NUMBER_PATTERN (length line) line) \<noteq> []"
    by (simp add: letter_level_unfold match_group1_def split: option.splits list.splits)
  also have "\<dots> \<longleftrightarrow> (\<exists>u \<in> set (ms LETTER_NUMBER_PATTERN (length line) line).
      ms (Seq SEP_LOOSE CONTENT_PATTERN) (length line) u \<noteq> [])"
    by (simp add: filter_empty_conv)
  finally show ?thesis by (simp only: sep_content_first)
qed

theorem letter_number_level:
  "(letter_level line \<noteq> None \<longleftrightarrow>
      (\<exists>u \<in> set (ms LETTER_NUMBER_PATTERN (length line) line). \<exists>c rest.
         u = c # rest \<and> invalid_follow c)) \<and>
   (\<forall>c. isspace c \<longrightarrow> invalid_follow c) \<and>
   (letter_level line = Some k \<longrightarrow>
      (\<exists>g w l groups c rest.
         match_group1 LETTER_NUMBER_PATTERN (Seq SEP_LOOSE CONTENT_PATTERN) line = Some g \<and>
         g = w @ l # concat groups \<and> list_all isspace w \<and> is_letter l \<and> groups \<noteq> [] \<and>
         list_all numeric_group groups \<and> line = g @ c # rest \<and> invalid_follow c \<and>
         k = length (filter (\<lambda>seg. strip seg \<noteq> []) (split_at is_dot (sub_dot_end (strip g)))) \<and>
         k = 1 + length groups)) \<and>
   (first_match_level NUMBER_PATTERNS_WITH_LEVEL (first_line_of t) = None \<and>
    letter_level (first_line_of t) = Some k \<longrightarrow> calculate_level_by_regex (Some t) = k) \<and>
   (level_of node = 1 \<and> node_type node = Some (asc ''text'') \<and> node_text node = Some t \<and>
    match_node node (TIME_PATTERNS @ TOC_PATTERNS) = Inr False \<and>
    first_match_level NUMBER_PATTERNS_WITH_LEVEL (first_line_of t) = None \<and>
    letter_level (first_line_of t) = Some k \<longrightarrow>
      layout_node node = Inr (node\<lparr>text_level := Some (int k)\<rparr>))"
proof -
  have A: "\<exists>g w l groups c rest.
         match_group1 LETTER_NUMBER_PATTERN (Seq SEP_LOOSE CONTENT_PATTERN) line = Some g \<and>
         g = w @ l # concat groups \<and> list_all isspace w \<and> is_letter l \<and> groups \<noteq> [] \<and>
         list_all numeric_group groups \<and> line = g @ c # rest \<and> invalid_follow c \<and>
         k = length (filter (\<lambda>seg. strip seg \<noteq> []) (split_at is_dot (sub_dot_end (strip g)))) \<and>
         k = 1 + length groups"
    if "letter_level line = Some k" for line k
  proof -
    from that obtain g where g: "match_group1 LETTER_NUMBER_PATTERN (Seq SEP_LOOSE CONTENT_PATTERN) line = Some g"
      and k: "k = length (filter (\<lambda>seg. strip seg \<noteq> []) (split_at is_dot (sub_dot_end (strip g))))"
      by (auto simp: letter_level_unfold split: option.splits)
    from letter_label_shape[OF g] obtain w l groups c rest where
      s: "g = w @ l # concat groups" "list_all isspace w" "is_letter l" "groups \<noteq> []"
        "list_all numeric_group groups" "line = g @ c # rest" "invalid_follow c" by blast
    from label_segments[OF s(2) s(3) s(4) s(5)] k s(1) have "k = 1 + length groups" by simp
    with g k s show ?thesis by blast
  qed
  have B: "calculate_level_by_regex (Some t) = k"
    if "first_match_level NUMBER_PATTERNS_WITH_LEVEL (first_line_of t) = None"
      "letter_level (first_line_of t) = Some k"
  proof -
    have "t \<noteq> []"
      using that(2) empty_line_unlettered by (auto simp: first_line_empty)
    with that show ?thesis by (simp add: calculate_level_by_regex_def)
  qed
  have C: "layout_node node = Inr (node\<lparr>text_level := Some (int k)\<rparr>)"
    if n: "level_of node = 1" "node_type node = Some (asc ''text'')" "node_text node = Some t"
      "match_node node (TIME_PATTERNS @ TOC_PATTERNS) = Inr False"
      and m: "first_match_level NUMBER_PATTERNS_WITH_LEVEL (first_line_of t) = None"
      "letter_level (first_line_of t) = Some k"
  proof -
    from A[OF m(2)] have "0 < k" by auto
    with n B[OF m] show ?thesis by (simp add: layout_node_def)
  qed
  have M: "letter_level line \<noteq> None \<longleftrightarrow>
      (\<exists>u \<in> set (ms LETTER_NUMBER_PATTERN (length line) line). \<exists>c rest.
         u = c # rest \<and> invalid_follow c)"
    by (rule letter_level_matches)
  have S: "\<forall>c. isspace c \<longrightarrow> invalid_follow c"
    using space_invalid by blast
  have A': "letter_level line = Some k \<longrightarrow>
      (\<exists>g w l groups c rest.
         match_group1 LETTER_NUMBER_PATTERN (Seq SEP_LOOSE CONTENT_PATTERN) line = Some g \<and>
         g = w @ l # concat groups \<and> list_all isspace w \<and> is_letter l \<and> groups \<noteq> [] \<and>
         list_all numeric_group groups \<and> line = g @ c # rest \<and> invalid_follow c \<and>
         k = length (filter (\<lambda>seg. strip seg \<noteq> []) (split_at is_dot (sub_dot_end (strip g)))) \<and>
         k = 1 + length groups)"
    using A by blast
  have B': "first_match_level NUMBER_PATTERNS_WITH_LEVEL (first_line_of t) = None \<and>
      letter_level (first_line_of t) = Some k \<longrightarrow> calculate_level_by_regex (Some t) = k"
    using B by blast
  have C': "level_of node = 1 \<and> node_type node = Some (asc ''text'') \<and> node_text node = Some t \<and>
      match_node node (TIME_PATTERNS @ TOC_PATTERNS) = Inr False \<and>
      first_match_level NUMBER_PATTERNS_WITH_LEVEL (first_line_of t) = None \<and>
      letter_level (first_line_of t) = Some k \<longrightarrow>
        layout_node node = Inr (node\<lparr>text_level := Some (int k)\<rparr>)"
    using C by blast
  show ?thesis
    apply (intro conjI)
        apply (rule M)
       apply (rule S)
      apply (rule A')
     apply (rule B')
    apply (rule C')
    done
qed

lemmas letter_eval = letter_level_unfold match_group1_def LETTER_NUMBER_PATTERN_def

lemma label_only_first: "first_line_of label_only = asc ''A.1''"
  by (simp add: label_only_def first_line_of_def asc_def strip_def chr_defs)

lemma label_only_strip: "strip label_only = label_only"
  by (simp add: label_only_def asc_def strip_def chr_defs)

lemma label_only_kept:
  "\<not> list_ex (\<lambda>p. re_match p label_only) (TIME_PATTERNS @ TOC_PATTERNS)"
  by (simp add: label_only_def re_match_def rx_defs chr_defs time_toc_defs asc_def)

lemma label_is_label: "re_match LETTER_NUMBER_PATTERN (asc ''A.1'')"
  by (simp add: re_match_def LETTER_NUMBER_PATTERN_def rx_defs chr_defs asc_def)

lemma label_unnumbered:
  "first_match_level NUMBER_PATTERNS_WITH_LEVEL (asc ''A.1'') = None"
  unfolding number_patterns_unfold number_label_unfold
  by (simp add: first_match_level_def re_match_def rx_defs chr_defs asc_def)

lemma label_unlettered: "letter_level (asc ''A.1'') = None"
  by (simp add: letter_eval rx_defs chr_defs asc_def)

lemma label_no_ordinal:
  "first_match_level NORMAL_PATTERNS_WITH_LEVEL (asc ''A.1'') = None"
  by (simp add: first_match_level_def re_match_def rx_defs chr_defs asc_def)

lemma label_only_level: "calculate_level_by_regex (Some label_only) = 0"
proof -
  have "label_only \<noteq> []" by (simp add: label_only_def asc_def)
  then show ?thesis
    by (simp add: calculate_level_by_regex_def label_only_first label_unnumbered
        label_unlettered label_no_ordinal)
qed

lemma label_only_node: "layout_node (heading label_only) = Inr (heading label_only)"
proof -
  have "TIME_PATTERNS @ TOC_PATTERNS \<noteq> []" by (simp add: TIME_PATTERNS_def)
  then have "match_node (heading label_only) (TIME_PATTERNS @ TOC_PATTERNS) = Inr False"
    using label_only_kept by (simp add: match_node_def heading_def bare_def label_only_strip)
  then show ?thesis
    by (simp add: layout_node_def) (simp add: heading_def bare_def level_of_def label_only_level)
qed

text \<open>
  C7 as stated fails where the label ends the line: the first line \<open>A.1\<close> of a two-line
  heading is a letter, a dot and a numeric group, and no decimal pattern matches it, yet
  the letter pattern of the source, which wants content after the label, does not
  match. The computed level is 0, not 2, and \<open>text_level\<close> stays 1.
\<close>

theorem letter_number_counterexample:
  "first_line_of label_only = asc ''A.1'' \<and>
   re_match LETTER_NUMBER_PATTERN (asc ''A.1'') \<and>
   first_match_level NUMBER_PATTERNS_WITH_LEVEL (asc ''A.1'') = None \<and>
   letter_level (asc ''A.1'') = None \<and>
   calculate_level_by_regex (Some label_only) = 0 \<and>
   layout_node (heading label_only) = Inr (heading label_only) \<and>
   text_level (heading label_only) = Some 1"
  using label_only_first label_is_label label_unnumbered label_unlettered label_only_level
    label_only_node
  by (simp add: heading_def)

lemma appendix_first: "first_line_of appendix_line = appendix_line"
  by (simp add: appendix_line_def first_line_of_def asc_def strip_def chr_defs)

lemma appendix_strip: "strip appendix_line = appendix_line"
  by (simp add: appendix_line_def asc_def strip_def chr_defs)

lemma appendix_kept:
  "\<not> list_ex (\<lambda>p. re_match p appendix_line) (TIME_PATTERNS @ TOC_PATTERNS)"
  by (simp add: appendix_line_def re_match_def rx_defs chr_defs time_toc_defs asc_def)

lemma appendix_unnumbered:
  "first_match_level NUMBER_PATTERNS_WITH_LEVEL appendix_line = None"
  unfolding number_patterns_unfold number_label_unfold
  by (simp add: appendix_line_def first_match_level_def re_match_def rx_defs chr_defs asc_def)

lemma appendix_group:
  "match_group1 LETTER_NUMBER_PATTERN (Seq SEP_LOOSE CONTENT_PATTERN) appendix_line
     = Some (asc ''A.1.2'')"
  by (simp add: appendix_line_def match_group1_def LETTER_NUMBER_PATTERN_def rx_defs chr_defs
      asc_def)

lemma appendix_lettered: "letter_level appendix_line = Some 3"
  unfolding letter_level_unfold appendix_group
  by (simp add: asc_def strip_def sub_dot_end_def chr_defs)

theorem letter_number_level_witness:
  "(\<exists>u \<in> set (ms LETTER_NUMBER_PATTERN (length appendix_line) appendix_line). \<exists>c rest.
      u = c # rest \<and> invalid_follow c) \<and>
   first_match_level NUMBER_PATTERNS_WITH_LEVEL (first_line_of appendix_line) = None \<and>
   letter_level (first_line_of appendix_line) = Some 3 \<and>
   match_group1 LETTER_NUMBER_PATTERN (Seq SEP_LOOSE CONTENT_PATTERN) appendix_line
     = Some (asc ''A.1.2'') \<and>
   level_of (heading appendix_line) = 1 \<and>
   match_node (heading appendix_line) (TIME_PATTERNS @ TOC_PATTERNS) = Inr False \<and>
   calculate_level_by_regex (Some appendix_line) = 3 \<and>
   layout_node (heading appendix_line) = Inr ((heading appendix_line)\<lparr>text_level := Some 3\<rparr>)"
proof -
  have ne: "TIME_PATTERNS @ TOC_PATTERNS \<noteq> []" by (simp add: TIME_PATTERNS_def)
  have l: "level_of (heading appendix_line) = 1"
    and ty: "node_type (heading appendix_line) = Some (asc ''text'')"
    and tx: "node_text (heading appendix_line) = Some appendix_line"
    by (simp_all add: heading_def bare_def level_of_def)
  have m: "match_node (heading appendix_line) (TIME_PATTERNS @ TOC_PATTERNS) = Inr False"
    using ne appendix_kept by (simp add: match_node_def tx appendix_strip)
  have u: "first_match_level NUMBER_PATTERNS_WITH_LEVEL (first_line_of appendix_line) = None"
    by (simp add: appendix_first appendix_unnumbered)
  have f: "letter_level (first_line_of appendix_line) = Some 3"
    by (simp add: appendix_first appendix_lettered)
  note T = letter_number_level[of appendix_line 3 appendix_line "heading appendix_line"]
  from T u f have c: "calculate_level_by_regex (Some appendix_line) = 3" by blast
  from T l ty tx m u f have
    n: "layout_node (heading appendix_line) = Inr ((heading appendix_line)\<lparr>text_level := Some (int 3)\<rparr>)"
    by blast
  have "letter_level appendix_line \<noteq> None" by (simp add: appendix_lettered)
  with T have e: "\<exists>u \<in> set (ms LETTER_NUMBER_PATTERN (length appendix_line) appendix_line). \<exists>c rest.
      u = c # rest \<and> invalid_follow c"
    by blast
  from l m u f c n appendix_group have
    "first_match_level NUMBER_PATTERNS_WITH_LEVEL (first_line_of appendix_line) = None \<and>
     letter_level (first_line_of appendix_line) = Some 3 \<and>
     match_group1 LETTER_NUMBER_PATTERN (Seq SEP_LOOSE CONTENT_PATTERN) appendix_line
       = Some (asc ''A.1.2'') \<and>
     level_of (heading appendix_line) = 1 \<and>
     match_node (heading appendix_line) (TIME_PATTERNS @ TOC_PATTERNS) = Inr False \<and>
     calculate_level_by_regex (Some appendix_line) = 3 \<and>
     layout_node (heading appendix_line) = Inr ((heading appendix_line)\<lparr>text_level := Some 3\<rparr>)"
    by simp
  with e show ?thesis by (rule conjI)
qed

section \<open>Positions in the output, with the nodes as objects\<close>

text \<open>
  Writing \<open>index\<close> at one address leaves the other addresses as they are; over distinct
  addresses the last write at each one is its position.
\<close>

lemma objs_set_index:
  "objs (set_index a k h) b = (if b = a then (objs h a)\<lparr>index := Some k\<rparr> else objs h b)"
  by (simp add: set_index_def)

lemma fresh_set_index: "fresh (set_index a k h) = fresh h"
  by (simp add: set_index_def)

lemma indices_of_set_index_other:
  "a \<notin> set bs \<Longrightarrow> indices_of (set_index a k h) bs = indices_of h bs"
  by (induction bs) (auto simp: indices_of_def objs_set_index)

lemma reset_node_index_obj_other:
  "b \<notin> set as \<Longrightarrow> objs (reset_node_index_obj as k h) b = objs h b"
  by (induction as k h rule: reset_node_index_obj.induct) (auto simp: objs_set_index)

lemma reset_node_index_obj_dense:
  "distinct as \<Longrightarrow>
     indices_of (reset_node_index_obj as k h) as = map (\<lambda>j. Some (int j)) [k ..< k + length as]"
proof (induction as k h rule: reset_node_index_obj.induct)
  case (1 k h)
  then show ?case by (simp add: indices_of_def)
next
  case (2 a rest k h)
  from "2.prems" have a: "a \<notin> set rest" and d: "distinct rest" by simp_all
  have "index (objs (reset_node_index_obj rest (k + 1) (set_index a (int k) h)) a) = Some (int k)"
    using reset_node_index_obj_other[OF a] by (simp add: objs_set_index)
  moreover have "indices_of (reset_node_index_obj rest (k + 1) (set_index a (int k) h)) rest
      = map (\<lambda>j. Some (int j)) [k + 1 ..< k + 1 + length rest]"
    by (rule "2.IH"[OF d])
  moreover have "[k ..< k + length (a # rest)] = k # [k + 1 ..< k + 1 + length rest]"
    by (simp add: upt_conv_Cons del: upt_Suc)
  ultimately show ?case
    by (simp only: reset_node_index_obj.simps indices_of_def list.map)
qed

lemma layout_parse_nodes_obj_result:
  "layout_parse_nodes_obj as h acc = Inr (h', r) \<Longrightarrow> r = acc @ as"
proof (induction as arbitrary: h acc)
  case Nil
  then show ?case by simp
next
  case (Cons a as)
  from Cons.prems obtain n where "layout_parse_nodes_obj as (h\<lparr>objs := (objs h)(a := n)\<rparr>) (acc @ [a])
      = Inr (h', r)"
    by (auto split: sum.splits)
  from Cons.IH[OF this] show ?case by simp
qed

lemma layout_groups_obj_distinct:
  "layout_groups_obj gs h acc = Inr (h', r) \<Longrightarrow> distinct (acc @ concat gs) \<Longrightarrow> distinct r"
proof (induction gs arbitrary: h acc)
  case Nil
  then show ?case by simp
next
  case (Cons g gs)
  show ?case
  proof (cases "g = []")
    case True
    with Cons.prems have "layout_groups_obj gs h acc = Inr (h', r)" "distinct (acc @ concat gs)"
      by simp_all
    then show ?thesis by (rule Cons.IH)
  next
    case False
    with Cons.prems(1) obtain h1 parsed where
      p: "layout_parse_nodes_obj (sort_key (\<lambda>a. index_key (objs h a)) g) h [] = Inr (h1, parsed)"
      and rest: "layout_groups_obj gs h1 (acc @ parsed) = Inr (h', r)"
      by (auto split: sum.splits)
    from layout_parse_nodes_obj_result[OF p]
    have parsed: "parsed = sort_key (\<lambda>a. index_key (objs h a)) g" by simp
    have "distinct ((acc @ parsed) @ concat gs)"
      using Cons.prems(2) unfolding parsed by auto
    with rest show ?thesis by (rule Cons.IH)
  qed
qed

lemma layout_forward_obj_dense:
  assumes "distinct addrs" and "layout_forward_obj h addrs = Inr (h', out)"
  shows "indices_of h' out = map (\<lambda>k. Some (int k)) [0 ..< length out]"
proof -
  from assms(2) obtain h1 where
    g: "layout_groups_obj
          (groupby (\<lambda>a. file_key (objs h a)) (sort_key (\<lambda>a. file_key (objs h a)) addrs)) h []
        = Inr (h1, out)"
    and h': "h' = reset_node_index_obj out 0 h1"
    by (auto simp: layout_forward_obj_def split: sum.splits)
  have "distinct ([] @ concat
          (groupby (\<lambda>a. file_key (objs h a)) (sort_key (\<lambda>a. file_key (objs h a)) addrs)))"
    using assms(1) by (simp add: concat_groupby)
  with g have "distinct out" by (rule layout_groups_obj_distinct)
  from reset_node_index_obj_dense[OF this, of 0 h1] show ?thesis
    unfolding h' by simp
qed

lemma merge_loop_obj_dense:
  assumes "merge_loop_obj sv addrs st idxs h result = (h', out)"
    and "distinct result" and "distinct (map ((!) addrs) idxs)"
    and "\<forall>i \<in> set idxs. addrs ! i \<notin> set result \<and> addrs ! i < fresh h"
    and "\<forall>a \<in> set result. a < fresh h"
    and "indices_of h result = map (\<lambda>k. Some (int k)) [0 ..< length result]"
  shows "indices_of h' out = map (\<lambda>k. Some (int k)) [0 ..< length out]"
  using assms
proof (induction idxs arbitrary: h result)
  case Nil
  then show ?case by simp
next
  case (Cons i rest)
  show ?case
  proof (cases "i \<in> merged_indices st")
    case True
    with Cons.prems(1) have "merge_loop_obj sv addrs st rest h result = (h', out)" by simp
    then show ?thesis
      using Cons.prems(2-6) by (intro Cons.IH[of h result]) auto
  next
    case False
    define p where "p = (case merge_info st i of
                         Some plan_i \<Rightarrow> alloc (emit sv (deref h addrs) st i) h
                       | None \<Rightarrow> (h, addrs ! i))"
    define h1 where "h1 = fst p"
    define a where "a = snd p"
    define h2 where "h2 = set_index a (int (length result)) h1"
    from False Cons.prems(1) have run: "merge_loop_obj sv addrs st rest h2 (result @ [a]) = (h', out)"
      by (simp add: p_def h1_def a_def h2_def case_prod_beta)
    have cases: "(a = fresh h \<and> fresh h1 = fresh h + 1 \<and> (\<forall>b. b \<noteq> fresh h \<longrightarrow> objs h1 b = objs h b))
        \<or> (a = addrs ! i \<and> h1 = h)"
      by (auto simp: p_def h1_def a_def alloc_def split: option.splits)
    have i: "addrs ! i \<notin> set result" "addrs ! i < fresh h" using Cons.prems(4) by simp_all
    have a_new: "a \<notin> set result"
      using cases i Cons.prems(5) by auto
    have a_rest: "\<forall>j \<in> set rest. addrs ! j \<noteq> a"
    proof
      fix j assume j: "j \<in> set rest"
      with Cons.prems(4) have "addrs ! j < fresh h" by simp
      moreover from j Cons.prems(3) have "addrs ! j \<noteq> addrs ! i" by (auto simp: image_iff)
      ultimately show "addrs ! j \<noteq> a" using cases by auto
    qed
    have fresh2: "fresh h \<le> fresh h2" "a < fresh h2"
      using cases i by (auto simp: h2_def fresh_set_index)
    have same: "indices_of h1 result = indices_of h result"
      using cases Cons.prems(5) by (auto simp: indices_of_def)
    have "indices_of h2 result = indices_of h1 result"
      unfolding h2_def by (rule indices_of_set_index_other[OF a_new])
    with same Cons.prems(6)
    have old: "indices_of h2 result = map (\<lambda>k. Some (int k)) [0 ..< length result]" by simp
    have new: "index (objs h2 a) = Some (int (length result))"
      by (simp add: h2_def objs_set_index)
    have "indices_of h2 (result @ [a]) = indices_of h2 result @ [index (objs h2 a)]"
      by (simp add: indices_of_def)
    then have "indices_of h2 (result @ [a])
        = map (\<lambda>k. Some (int k)) [0 ..< length (result @ [a])]"
      unfolding old new by simp
    moreover have "distinct (result @ [a])" using Cons.prems(2) a_new by simp
    moreover have "distinct (map ((!) addrs) rest)" using Cons.prems(3) by simp
    moreover have "\<forall>j \<in> set rest. addrs ! j \<notin> set (result @ [a]) \<and> addrs ! j < fresh h2"
      using Cons.prems(4) a_rest fresh2 by auto
    moreover have "\<forall>b \<in> set (result @ [a]). b < fresh h2"
      using Cons.prems(5) fresh2 by auto
    ultimately show ?thesis
      using run by (intro Cons.IH[of h2 "result @ [a]"]) auto
  qed
qed

lemma parse_nodes_obj_dense:
  assumes "distinct addrs" and "\<forall>a \<in> set addrs. a < fresh h"
    and "parse_nodes_obj sv h addrs = (h', out)"
  shows "indices_of h' out = map (\<lambda>k. Some (int k)) [0 ..< length out]"
proof (cases "addrs = []")
  case True
  with assms(3) show ?thesis by (simp add: parse_nodes_obj_def indices_of_def)
next
  case False
  with assms(3) have run: "merge_loop_obj sv addrs (plan_nodes (deref h addrs))
      [0 ..< length addrs] h [] = (h', out)"
    by (simp add: parse_nodes_obj_def)
  have "map ((!) addrs) [0 ..< length addrs] = addrs" by (rule map_nth)
  with assms(1) have d: "distinct (map ((!) addrs) [0 ..< length addrs])" by simp
  show ?thesis
    using run _ d
  proof (rule merge_loop_obj_dense)
    show "distinct ([] :: nat list)" by simp
    show "\<forall>i \<in> set [0 ..< length addrs]. addrs ! i \<notin> set [] \<and> addrs ! i < fresh h"
      using assms(2) by simp
    show "\<forall>a \<in> set ([] :: nat list). a < fresh h" by simp
    show "indices_of h [] = map (\<lambda>k. Some (int k)) [0 ..< length ([] :: nat list)]"
      by (simp add: indices_of_def)
  qed
qed

text \<open>
  On distinct objects the two parsers return what \<open>parse_nodes\<close> and \<open>layout_forward\<close>
  compute on the values of the nodes.
\<close>

lemma emit_cong:
  assumes "ns ! i = ns' ! i"
    and "\<And>j. j \<in> claims st i \<Longrightarrow> ns ! j = ns' ! j"
  shows "emit sv ns st i = emit sv ns' st i"
proof (cases "merge_info st i")
  case None
  with assms(1) show ?thesis by (simp add: emit_def)
next
  case (Some cf)
  obtain c f where cf: "cf = (c, f)" by (cases cf)
  have "map_option (\<lambda>j. ns ! j) c = map_option (\<lambda>j. ns' ! j) c"
    using assms(2) Some cf by (cases c) (auto simp: claims_def)
  moreover have "map_option (\<lambda>j. ns ! j) f = map_option (\<lambda>j. ns' ! j) f"
    using assms(2) Some cf by (cases f) (auto simp: claims_def)
  ultimately show ?thesis using Some cf assms(1) by (simp add: emit_def)
qed

lemma length_deref: "length (deref h addrs) = length addrs"
  by (simp add: deref_def)

lemma deref_set_index_other: "a \<notin> set bs \<Longrightarrow> deref (set_index a k h) bs = deref h bs"
  by (induction bs) (auto simp: deref_def objs_set_index)

lemma merge_loop_obj_values:
  assumes "merge_loop_obj sv addrs st idxs h result = (h', out)"
    and "distinct addrs" and "distinct idxs" and "\<forall>i \<in> set idxs. i < length addrs"
    and "\<forall>a \<in> set addrs. a < fresh h" and "\<forall>a \<in> set result. a < fresh h"
    and "\<forall>i \<in> set idxs. addrs ! i \<notin> set result"
    and "\<forall>j \<in> merged_indices st. j < length addrs \<and> addrs ! j \<notin> set result"
    and "\<forall>i. claims st i \<subseteq> merged_indices st"
    and "\<forall>j < length addrs. addrs ! j \<notin> set result \<longrightarrow> objs h (addrs ! j) = nodes ! j"
    and "length nodes = length addrs"
  shows "deref h' out = merge_loop sv nodes st idxs (deref h result)"
  using assms
proof (induction idxs arbitrary: h result)
  case Nil
  then show ?case by simp
next
  case (Cons i rest)
  show ?case
  proof (cases "i \<in> merged_indices st")
    case True
    with Cons.prems(1) have run: "merge_loop_obj sv addrs st rest h result = (h', out)" by simp
    have "deref h' out = merge_loop sv nodes st rest (deref h result)"
      using run Cons.prems(2-11) by (intro Cons.IH) auto
    with True show ?thesis by simp
  next
    case False
    define p where "p = (case merge_info st i of
                         Some plan_i \<Rightarrow> alloc (emit sv (deref h addrs) st i) h
                       | None \<Rightarrow> (h, addrs ! i))"
    define h1 where "h1 = fst p"
    define a where "a = snd p"
    define h2 where "h2 = set_index a (int (length result)) h1"
    from False Cons.prems(1) have run: "merge_loop_obj sv addrs st rest h2 (result @ [a]) = (h', out)"
      by (simp add: p_def h1_def a_def h2_def case_prod_beta)
    have i: "i < length addrs" "addrs ! i \<notin> set result" "addrs ! i < fresh h"
      using Cons.prems(4,5,7) by simp_all
    have here: "objs h (addrs ! i) = nodes ! i" using Cons.prems(10) i by simp
    have claimed: "(deref h addrs) ! j = nodes ! j" if "j \<in> claims st i" for j
    proof -
      from that Cons.prems(9) have "j \<in> merged_indices st" by auto
      with Cons.prems(8) have "j < length addrs" "addrs ! j \<notin> set result" by auto
      with Cons.prems(10) show ?thesis by (simp add: deref_def)
    qed
    have em: "emit sv (deref h addrs) st i = emit sv nodes st i"
      using here i(1) claimed by (intro emit_cong) (simp_all add: deref_def)
    have val: "objs h1 a = emit sv nodes st i"
    proof (cases "merge_info st i")
      case None
      then show ?thesis using here by (simp add: p_def h1_def a_def emit_def)
    next
      case (Some cf)
      then show ?thesis using em by (simp add: p_def h1_def a_def alloc_def)
    qed
    have cases: "(a = fresh h \<and> fresh h1 = fresh h + 1 \<and> (\<forall>b. b \<noteq> fresh h \<longrightarrow> objs h1 b = objs h b))
        \<or> (a = addrs ! i \<and> h1 = h)"
      by (auto simp: p_def h1_def a_def alloc_def split: option.splits)
    have a_new: "a \<notin> set result"
      using cases i Cons.prems(6) by auto
    have fresh2: "fresh h \<le> fresh h2" "a < fresh h2"
      using cases i by (auto simp: h2_def fresh_set_index)
    have other: "objs h2 b = objs h b" if "b \<noteq> a" "b < fresh h" for b
      using that cases by (auto simp: h2_def objs_set_index)
    have old: "deref h2 result = deref h result"
    proof -
      have "deref h2 result = deref h1 result"
        unfolding h2_def by (rule deref_set_index_other[OF a_new])
      also have "\<dots> = deref h result"
        using cases Cons.prems(6) by (auto simp: deref_def)
      finally show ?thesis .
    qed
    have new: "objs h2 a = (emit sv nodes st i)\<lparr>index := Some (int (length result))\<rparr>"
      by (simp add: h2_def objs_set_index val)
    have dr: "deref h2 (result @ [a])
        = deref h result @ [(emit sv nodes st i)\<lparr>index := Some (int (length result))\<rparr>]"
      using old new by (simp add: deref_def)
    have distinct_addr: "addrs ! j \<noteq> addrs ! i" if "j < length addrs" "j \<noteq> i" for j
      using that i(1) Cons.prems(2) by (simp add: nth_eq_iff_index_eq)
    have "deref h' out = merge_loop sv nodes st rest (deref h2 (result @ [a]))"
      using run Cons.prems(2)
    proof (rule Cons.IH)
      show "distinct rest" using Cons.prems(3) by simp
      show "\<forall>i \<in> set rest. i < length addrs" using Cons.prems(4) by simp
      show "\<forall>a \<in> set addrs. a < fresh h2" using Cons.prems(5) fresh2 by auto
      show "\<forall>b \<in> set (result @ [a]). b < fresh h2" using Cons.prems(6) fresh2 by auto
      show "\<forall>j \<in> set rest. addrs ! j \<notin> set (result @ [a])"
      proof
        fix j assume j: "j \<in> set rest"
        with Cons.prems(3,4,5,7) have "j \<noteq> i" "j < length addrs" "addrs ! j \<notin> set result"
          "addrs ! j < fresh h" by auto
        with distinct_addr[of j] cases show "addrs ! j \<notin> set (result @ [a])" by auto
      qed
      show "\<forall>j \<in> merged_indices st. j < length addrs \<and> addrs ! j \<notin> set (result @ [a])"
      proof
        fix j assume j: "j \<in> merged_indices st"
        with Cons.prems(8) False have "j \<noteq> i" "j < length addrs" "addrs ! j \<notin> set result" by auto
        moreover from this Cons.prems(5) have "addrs ! j < fresh h" by simp
        ultimately show "j < length addrs \<and> addrs ! j \<notin> set (result @ [a])"
          using distinct_addr[of j] cases by auto
      qed
      show "\<forall>i. claims st i \<subseteq> merged_indices st" by (rule Cons.prems(9))
      show "\<forall>j < length addrs. addrs ! j \<notin> set (result @ [a]) \<longrightarrow> objs h2 (addrs ! j) = nodes ! j"
      proof (intro allI impI)
        fix j assume j: "j < length addrs" "addrs ! j \<notin> set (result @ [a])"
        with Cons.prems(5) have "addrs ! j \<noteq> a" "addrs ! j < fresh h" "addrs ! j \<notin> set result" by auto
        with other[of "addrs ! j"] Cons.prems(10) j(1) show "objs h2 (addrs ! j) = nodes ! j" by simp
      qed
      show "length nodes = length addrs" by (rule Cons.prems(11))
    qed
    with False show ?thesis by (simp add: dr length_deref)
  qed
qed

lemma parse_nodes_obj_values:
  assumes "distinct addrs" and "\<forall>a \<in> set addrs. a < fresh h"
    and "parse_nodes_obj sv h addrs = (h', out)"
  shows "deref h' out = parse_nodes sv (deref h addrs)"
proof (cases "addrs = []")
  case True
  with assms(3) show ?thesis by (simp add: parse_nodes_obj_def parse_nodes_def deref_def)
next
  case False
  let ?nodes = "deref h addrs"
  let ?st = "plan_nodes ?nodes"
  have len: "length ?nodes = length addrs" by (simp add: deref_def)
  have inv: "plan_inv ?nodes (length ?nodes) ?st" by (rule plan_inv_plan_nodes)
  from False assms(3) have run: "merge_loop_obj sv addrs ?st [0 ..< length addrs] h [] = (h', out)"
    by (simp add: parse_nodes_obj_def)
  have "deref h' out = merge_loop sv ?nodes ?st [0 ..< length addrs] (deref h [])"
    using run assms(1)
  proof (rule merge_loop_obj_values)
    show "distinct [0 ..< length addrs]" by simp
    show "\<forall>i \<in> set [0 ..< length addrs]. i < length addrs" by simp
    show "\<forall>a \<in> set addrs. a < fresh h" by (rule assms(2))
    show "\<forall>a \<in> set ([] :: nat list). a < fresh h" by simp
    show "\<forall>i \<in> set [0 ..< length addrs]. addrs ! i \<notin> set []" by simp
    show "\<forall>j \<in> merged_indices ?st. j < length addrs \<and> addrs ! j \<notin> set []"
      using inv len by (auto simp: plan_inv_def)
    show "\<forall>i. claims ?st i \<subseteq> merged_indices ?st"
      using inv by (simp add: plan_inv_def)
    show "\<forall>j < length addrs. addrs ! j \<notin> set [] \<longrightarrow> objs h (addrs ! j) = ?nodes ! j"
      by (simp add: deref_def)
    show "length ?nodes = length addrs" by (rule len)
  qed
  with False show ?thesis by (simp add: parse_nodes_def deref_def)
qed

lemma insort_key_map:
  "insort_key f (g x) (map g ys) = map g (insort_key (\<lambda>a. f (g a)) x ys)"
  by (induction ys) simp_all

lemma sort_key_map: "sort_key f (map g xs) = map g (sort_key (\<lambda>a. f (g a)) xs)"
  by (induction xs) (simp_all add: insort_key_map)

lemma groupby_map: "groupby key (map g xs) = map (map g) (groupby (\<lambda>a. key (g a)) xs)"
proof (induction xs)
  case Nil
  then show ?case by simp
next
  case (Cons x xs)
  show ?case
  proof (cases "groupby (\<lambda>a. key (g a)) xs")
    case Nil
    with Cons.IH show ?thesis by simp
  next
    case (Cons grp grps)
    with groupby_no_empty[of "\<lambda>a. key (g a)" xs] obtain y ys where "grp = y # ys"
      by (cases grp) auto
    with Cons Cons.IH show ?thesis by simp
  qed
qed

lemma deref_update_other:
  "a \<notin> set bs \<Longrightarrow> deref (h\<lparr>objs := (objs h)(a := n)\<rparr>) bs = deref h bs"
  by (induction bs) (auto simp: deref_def)

lemma deref_cong: "(\<And>b. b \<in> set bs \<Longrightarrow> objs h b = objs h' b) \<Longrightarrow> deref h bs = deref h' bs"
  by (simp add: deref_def)

lemma layout_parse_nodes_obj_values:
  assumes "distinct as" and "set as \<inter> set acc = {}"
  shows "(layout_parse_nodes_obj as h acc = Inl e
            \<longrightarrow> layout_parse_nodes (deref h as) (deref h acc) = Inl e) \<and>
         (layout_parse_nodes_obj as h acc = Inr (h', r)
            \<longrightarrow> layout_parse_nodes (deref h as) (deref h acc) = Inr (deref h' r) \<and>
                r = acc @ as \<and> (\<forall>b. b \<notin> set as \<longrightarrow> objs h' b = objs h b))"
  using assms
proof (induction as arbitrary: h acc)
  case Nil
  then show ?case by (auto simp: deref_def)
next
  case (Cons a as)
  from Cons.prems have a: "a \<notin> set as" "a \<notin> set acc" and d: "distinct as"
    and disj: "set as \<inter> set (acc @ [a]) = {}" by auto
  show ?case
  proof (cases "layout_node (objs h a)")
    case (Inl e')
    then show ?thesis by (simp add: deref_def)
  next
    case (Inr n)
    let ?h1 = "h\<lparr>objs := (objs h)(a := n)\<rparr>"
    have v1: "deref ?h1 as = deref h as" by (rule deref_update_other[OF a(1)])
    have v2: "deref ?h1 (acc @ [a]) = deref h acc @ [n]"
      using deref_update_other[OF a(2), of h n] by (simp add: deref_def)
    note IH = Cons.IH[OF d disj, of ?h1, unfolded v1 v2]
    have step: "layout_parse_nodes (deref h (a # as)) (deref h acc)
        = layout_parse_nodes (deref h as) (deref h acc @ [n])"
      using Inr by (simp add: deref_def)
    have run: "layout_parse_nodes_obj (a # as) h acc = layout_parse_nodes_obj as ?h1 (acc @ [a])"
      using Inr by simp
    show ?thesis
      unfolding step run using IH a(1) by auto
  qed
qed

lemma layout_groups_obj_values:
  assumes "distinct (acc @ concat gs)"
  shows "(layout_groups_obj gs h acc = Inl e
            \<longrightarrow> layout_groups (map (deref h) gs) (deref h acc) = Inl e) \<and>
         (layout_groups_obj gs h acc = Inr (h', r)
            \<longrightarrow> layout_groups (map (deref h) gs) (deref h acc) = Inr (deref h' r))"
  using assms
proof (induction gs arbitrary: h acc)
  case Nil
  then show ?case by simp
next
  case (Cons g gs)
  show ?case
  proof (cases "g = []")
    case True
    with Cons.prems have "distinct (acc @ concat gs)" by simp
    from Cons.IH[OF this, of h] True show ?thesis by (simp add: deref_def)
  next
    case False
    let ?sorted = "sort_key (\<lambda>a. index_key (objs h a)) g"
    have ne: "deref h g \<noteq> []" using False by (simp add: deref_def)
    have sv: "sort_key index_key (deref h g) = deref h ?sorted"
      by (simp add: deref_def sort_key_map)
    have ds: "distinct ?sorted" "set ?sorted \<inter> set [] = {}" "set ?sorted = set g"
      using Cons.prems by simp_all
    note P = layout_parse_nodes_obj_values[OF ds(1) ds(2), of h]
    show ?thesis
    proof (cases "layout_parse_nodes_obj ?sorted h []")
      case (Inl e')
      with P[of e'] have "layout_parse_nodes (deref h ?sorted) [] = Inl e'"
        by (simp add: deref_def)
      with Inl ne False show ?thesis by (simp add: sv)
    next
      case (Inr hp)
      obtain h1 parsed where hp: "hp = (h1, parsed)" by (cases hp)
      from P[of _ h1 parsed] Inr hp have
        pv: "layout_parse_nodes (deref h ?sorted) [] = Inr (deref h1 parsed)"
        and pr: "parsed = ?sorted" and keep: "\<forall>b. b \<notin> set g \<longrightarrow> objs h1 b = objs h b"
        using ds(3) by (auto simp: deref_def)
      have dist: "distinct ((acc @ parsed) @ concat gs)"
        using Cons.prems unfolding pr by auto
      have g1: "map (deref h1) gs = map (deref h) gs"
      proof (rule map_cong[OF refl], rule deref_cong)
        fix grp b assume "grp \<in> set gs" "b \<in> set grp"
        with Cons.prems have "b \<notin> set g" by auto
        with keep show "objs h1 b = objs h b" by simp
      qed
      have a1: "deref h1 (acc @ parsed) = deref h acc @ deref h1 parsed"
      proof -
        have "deref h1 acc = deref h acc"
        proof (rule deref_cong)
          fix b assume "b \<in> set acc"
          with Cons.prems have "b \<notin> set g" by auto
          with keep show "objs h1 b = objs h b" by simp
        qed
        then show ?thesis by (simp add: deref_def)
      qed
      note IH = Cons.IH[OF dist, of h1, unfolded g1 a1]
      have run: "layout_groups_obj (g # gs) h acc = layout_groups_obj gs h1 (acc @ parsed)"
        using False Inr hp by simp
      have step: "layout_groups (map (deref h) (g # gs)) (deref h acc)
          = layout_groups (map (deref h) gs) (deref h acc @ deref h1 parsed)"
        using ne pv by (simp add: sv)
      show ?thesis unfolding run step by (rule IH)
    qed
  qed
qed

lemma reset_node_index_obj_values:
  "distinct as \<Longrightarrow>
     deref (reset_node_index_obj as k h) as
       = map (\<lambda>(i, node). node\<lparr>index := Some (int i)\<rparr>) (enumerate k (deref h as))"
proof (induction as k h rule: reset_node_index_obj.induct)
  case (1 k h)
  then show ?case by (simp add: deref_def)
next
  case (2 a rest k h)
  from "2.prems" have a: "a \<notin> set rest" and d: "distinct rest" by simp_all
  have here: "objs (reset_node_index_obj rest (k + 1) (set_index a (int k) h)) a
      = (objs h a)\<lparr>index := Some (int k)\<rparr>"
    using reset_node_index_obj_other[OF a] by (simp add: objs_set_index)
  have "deref (reset_node_index_obj rest (k + 1) (set_index a (int k) h)) rest
      = map (\<lambda>(i, node). node\<lparr>index := Some (int i)\<rparr>)
          (enumerate (k + 1) (deref (set_index a (int k) h) rest))"
    by (rule "2.IH"[OF d])
  also have "deref (set_index a (int k) h) rest = deref h rest"
    by (rule deref_set_index_other[OF a])
  finally show ?case using here by (simp add: deref_def)
qed

lemma layout_forward_obj_values:
  assumes "distinct addrs"
  shows "(layout_forward_obj h addrs = Inl e \<longrightarrow> layout_forward (deref h addrs) = Inl e) \<and>
         (layout_forward_obj h addrs = Inr (h', out)
            \<longrightarrow> layout_forward (deref h addrs) = Inr (deref h' out))"
proof -
  let ?gs = "groupby (\<lambda>a. file_key (objs h a)) (sort_key (\<lambda>a. file_key (objs h a)) addrs)"
  have gv: "groupby file_key (sort_key file_key (deref h addrs)) = map (deref h) ?gs"
    by (simp add: deref_def sort_key_map groupby_map)
  have dist: "distinct ([] @ concat ?gs)"
    using assms by (simp add: concat_groupby)
  note G = layout_groups_obj_values[OF dist, of h]
  show ?thesis
  proof (cases "layout_groups_obj ?gs h []")
    case (Inl e')
    with G[of e'] have "layout_groups (map (deref h) ?gs) [] = Inl e'" by (simp add: deref_def)
    with Inl show ?thesis by (simp add: layout_forward_obj_def layout_forward_def gv)
  next
    case (Inr hr)
    obtain h1 r where hr: "hr = (h1, r)" by (cases hr)
    from G[of _ h1 r] Inr hr have v: "layout_groups (map (deref h) ?gs) [] = Inr (deref h1 r)"
      by (simp add: deref_def)
    from Inr hr have "layout_groups_obj ?gs h [] = Inr (h1, r)" by simp
    then have "distinct r" using dist by (rule layout_groups_obj_distinct)
    from reset_node_index_obj_values[OF this, of 0 h1]
    have "deref (reset_node_index_obj r 0 h1) r = reset_node_index (deref h1 r)"
      by (simp add: reset_node_index_def)
    with Inr hr v show ?thesis
      by (auto simp: layout_forward_obj_def layout_forward_def gv)
  qed
qed

text \<open>
  A paragraph listed twice: the list \<open>[p, p]\<close> of one object \<open>p\<close>.
\<close>

lemma plain_plan:
  "plan_nodes (deref plain_heap [0, 0]) = \<lparr>merge_info = Map.empty, merged_indices = {}\<rparr>"
  apply (simp add: plan_nodes_def deref_def plain_heap_def upt_rec)
  apply (simp add: bare_def asc_def plan_step_def type_of_def)
  done

lemma plain_parse:
  "parse_nodes_obj True plain_heap [0, 0]
     = (set_index 0 1 (set_index 0 0 plain_heap), [0, 0])"
  unfolding parse_nodes_obj_def plain_plan
  by (simp add: upt_rec)

lemma plain_strip: "strip (asc ''x'') = asc ''x''"
  by (simp add: asc_def strip_def chr_defs)

lemma plain_kept:
  "\<not> list_ex (\<lambda>p. re_match p (asc ''x'')) (TIME_PATTERNS @ TOC_PATTERNS)"
  by (simp add: re_match_def rx_defs chr_defs time_toc_defs asc_def)

lemma plain_node:
  "layout_node (bare (asc ''text'') (asc ''x'')) = Inr (bare (asc ''text'') (asc ''x''))"
proof -
  have "TIME_PATTERNS @ TOC_PATTERNS \<noteq> []" by (simp add: TIME_PATTERNS_def)
  then have "match_node (bare (asc ''text'') (asc ''x'')) (TIME_PATTERNS @ TOC_PATTERNS) = Inr False"
    using plain_kept by (simp add: match_node_def bare_def plain_strip)
  then show ?thesis
    by (simp add: layout_node_def) (simp add: bare_def level_of_def)
qed

lemma plain_forward:
  "layout_forward_obj plain_heap [0, 0]
     = Inr (set_index 0 1 (set_index 0 0 plain_heap), [0, 0])"
proof -
  have k: "file_key (objs plain_heap a) = []" "index_key (objs plain_heap a) = 0" for a
    by (simp_all add: plain_heap_def file_key_def index_key_def bare_def)
  have u: "plain_heap\<lparr>objs := (objs plain_heap)(0 := bare (asc ''text'') (asc ''x''))\<rparr> = plain_heap"
    by (simp add: plain_heap_def fun_upd_idem)
  have o: "objs plain_heap a = bare (asc ''text'') (asc ''x'')" for a
    by (simp add: plain_heap_def)
  show ?thesis
    by (simp add: layout_forward_obj_def k o plain_node u)
qed

lemma ex1_deref: "deref ex1_heap [0, 1, 2] = ex1"
  by (simp add: deref_def ex1_heap_def ex1_def)

lemma ex1_parse_obj:
  "snd (parse_nodes_obj True ex1_heap [0, 1, 2]) = [3] \<and>
   indices_of (fst (parse_nodes_obj True ex1_heap [0, 1, 2])) [3] = [Some 0]"
  unfolding parse_nodes_obj_def ex1_deref plan_ex1
  by (simp add: upt_rec alloc_def indices_of_def objs_set_index ex1_heap_def)

lemma toc_forward_obj:
  "layout_forward_obj toc_heap [0]
     = Inr (set_index 0 0 (toc_heap\<lparr>objs := (objs toc_heap)(0 := toc_line\<lparr>text_level := Some 0\<rparr>)\<rparr>), [0])"
proof -
  have o: "objs toc_heap a = toc_line" for a
    by (simp add: toc_heap_def)
  have l: "layout_node toc_line = Inr (toc_line\<lparr>text_level := Some 0\<rparr>)"
    by (simp add: layout_node_def toc_line_matches) (simp add: toc_line_def level_of_def)
  show ?thesis
    by (simp add: layout_forward_obj_def o l)
qed

text \<open>
  C9 as stated fails for a list that holds one object twice. Both parsers return the
  list \<open>[p, p]\<close> for the input \<open>[p, p]\<close>, and the second write of \<open>index\<close> lands on the
  object that the first place holds as well: the \<open>index\<close> values of the output read
  1, 1 and not 0, 1.
\<close>

theorem position_density_counterexample:
  "snd (parse_nodes_obj True plain_heap [0, 0]) = [0, 0] \<and>
   indices_of (fst (parse_nodes_obj True plain_heap [0, 0])) [0, 0] = [Some 1, Some 1] \<and>
   (case layout_forward_obj plain_heap [0, 0] of
      Inl e \<Rightarrow> [] | Inr (h', out) \<Rightarrow> indices_of h' out) = [Some 1, Some 1]"
  by (simp add: plain_parse plain_forward indices_of_def objs_set_index)

text \<open>
  C9, amended. For a list of pairwise distinct objects, the \<open>index\<close> values of the
  output of the caption parser are 0, 1, ... in the order of the output, and so are
  those of the output of the layout parser whenever it returns one. (\<open>a < fresh h\<close> says
  that the objects of the input exist in the store.)
\<close>

theorem position_density:
  "(distinct addrs \<and> (\<forall>a \<in> set addrs. a < fresh h) \<and>
    parse_nodes_obj save_image h addrs = (h', out)
      \<longrightarrow> indices_of h' out = map (\<lambda>k. Some (int k)) [0 ..< length out]) \<and>
   (distinct addrs \<and> layout_forward_obj h addrs = Inr (h', out)
      \<longrightarrow> indices_of h' out = map (\<lambda>k. Some (int k)) [0 ..< length out])"
  using parse_nodes_obj_dense layout_forward_obj_dense by blast

theorem position_density_witness:
  "distinct [0, 1, 2 :: nat] \<and> snd (parse_nodes_obj True ex1_heap [0, 1, 2]) = [3] \<and>
   indices_of (fst (parse_nodes_obj True ex1_heap [0, 1, 2])) [3] = [Some 0] \<and>
   distinct [0 :: nat] \<and>
   (case layout_forward_obj toc_heap [0] of
      Inl e \<Rightarrow> [] | Inr (h', out) \<Rightarrow> indices_of h' out) = [Some 0]"
proof -
  have d: "distinct [0, 1, 2 :: nat]" by simp
  have a: "\<forall>a \<in> set [0, 1, 2 :: nat]. a < fresh ex1_heap" by (simp add: ex1_heap_def)
  have p: "parse_nodes_obj True ex1_heap [0, 1, 2]
      = (fst (parse_nodes_obj True ex1_heap [0, 1, 2]), snd (parse_nodes_obj True ex1_heap [0, 1, 2]))"
    by simp
  from position_density[of "[0, 1, 2]" ex1_heap True "fst (parse_nodes_obj True ex1_heap [0, 1, 2])"
      "snd (parse_nodes_obj True ex1_heap [0, 1, 2])"] d a p
  have "indices_of (fst (parse_nodes_obj True ex1_heap [0, 1, 2]))
          (snd (parse_nodes_obj True ex1_heap [0, 1, 2]))
        = map (\<lambda>k. Some (int k)) [0 ..< length (snd (parse_nodes_obj True ex1_heap [0, 1, 2]))]"
    by blast
  then have c: "indices_of (fst (parse_nodes_obj True ex1_heap [0, 1, 2])) [3] = [Some 0]"
    using ex1_parse_obj by simp
  have e: "distinct [0 :: nat]" by simp
  from position_density[of "[0]" toc_heap _
      "set_index 0 0 (toc_heap\<lparr>objs := (objs toc_heap)(0 := toc_line\<lparr>text_level := Some 0\<rparr>)\<rparr>)"
      "[0]"] e toc_forward_obj
  have "indices_of
          (set_index 0 0 (toc_heap\<lparr>objs := (objs toc_heap)(0 := toc_line\<lparr>text_level := Some 0\<rparr>)\<rparr>))
          [0]
        = map (\<lambda>k. Some (int k)) [0 ..< length [0 :: nat]]"
    by blast
  then have l: "(case layout_forward_obj toc_heap [0] of
      Inl e \<Rightarrow> [] | Inr (h', out) \<Rightarrow> indices_of h' out) = [Some 0]"
    by (simp add: toc_forward_obj)
  from d ex1_parse_obj c e l show ?thesis by simp
qed

end
